theory Spec2Isabelle
  imports Main
begin

section \<open>The documentation index of epydoc (docindexer.py)\<close>

text \<open>
  The class \<open>DocIndex\<close> of \<open>epydoc/docindexer.py\<close> takes a root set of
  \<open>ValueDoc\<close> objects, walks everything that can be reached from it, gives every
  reachable \<open>ValueDoc\<close> a canonical dotted name, merges objects that declare
  \<open>imported_from\<close> with the object they were imported from, and fills in
  \<open>canonical_container\<close>.  The objects are ordinary mutable Python objects that point
  at each other, possibly in cycles, so the model keeps them in an explicit store.
\<close>

subsection \<open>Values of the Python program\<close>

text \<open>
  An attribute of an \<open>APIDoc\<close> holds a proper value, Python's \<open>None\<close>, or the
  marker \<open>UNKNOWN\<close> of \<open>epydoc.apidoc\<close>.  The code tests for the last two
  separately (\<open>is UNKNOWN\<close>, \<open>in (None, UNKNOWN)\<close>), so all three are kept.
\<close>

datatype 'a tri = Known 'a | PyNone | UNKNOWN

text \<open>A \<open>ValueDoc\<close> object is named by its address in the store.\<close>

type_synonym ref = nat

text \<open>
  Modelled from the spec: \<open>DottedName\<close> (class of \<open>epydoc.apidoc\<close>, not among the
  sources) is an immutable sequence of identifiers with concatenation, a prefix test
  \<open>dominates\<close>, a length, slicing and \<open>container()\<close>, the name without its last
  identifier (\<open>None\<close> when nothing is left).
\<close>

type_synonym dotted_name = "string list"

definition dominates :: "dotted_name \<Rightarrow> dotted_name \<Rightarrow> bool" where
  "dominates self other = (take (length self) other = self)"

definition container :: "dotted_name \<Rightarrow> dotted_name option" where
  "container self = (if length self \<le> 1 then None else Some (butlast self))"

text \<open>The exceptions that leave \<open>DocIndex.__init__\<close> and the lookup methods.\<close>

datatype error =
  RootWithoutName \<comment> \<open>the \<open>ValueError\<close> raised for a root without a canonical name\<close>
  | AttributeError \<comment> \<open>an attribute or method looked up on \<open>None\<close> or \<open>UNKNOWN\<close>\<close>
  | BadDottedName \<comment> \<open>\<open>DottedName\<close> built from a piece that is no name\<close>

text \<open>
  A call returns a result, raises, or is still running when its fuel is used up.  The
  recursive passes and the \<open>while\<close> loop of the merge step take fuel.
\<close>

datatype 'a outcome = Done 'a | Raised error | OutOfFuel

fun for_each :: "('a \<Rightarrow> 's \<Rightarrow> 's outcome) \<Rightarrow> 'a list \<Rightarrow> 's \<Rightarrow> 's outcome" where
  "for_each body [] st = Done st"
| "for_each body (x # xs) st =
     (case body x st of
        Done st' \<Rightarrow> for_each body xs st'
      | Raised e \<Rightarrow> Raised e
      | OutOfFuel \<Rightarrow> OutOfFuel)"

subsection \<open>The documentation objects\<close>

text \<open>
  Modelled from the spec: the classes of \<open>epydoc.apidoc\<close> are not among the sources.
  A \<open>VariableDoc\<close> has a name, the \<open>ValueDoc\<close> it is bound to, and the flags
  \<open>is_imported\<close> and \<open>is_alias\<close>.  The indexer never writes to a
  \<open>VariableDoc\<close>.
\<close>

record vardoc =
  var_name :: string
  var_value :: "ref tri"
  is_imported :: "bool tri"
  is_alias :: "bool tri"

text \<open>
  The class of a \<open>ValueDoc\<close>.  \<open>ModuleDoc\<close> and \<open>ClassDoc\<close> are subclasses of
  \<open>NamespaceDoc\<close>; \<open>GenericValueDoc\<close> stands for every other \<open>ValueDoc\<close>.
\<close>

datatype kind = ModuleDoc | ClassDoc | NamespaceDoc | PropertyDoc | GenericValueDoc

definition isinstance_NamespaceDoc :: "kind \<Rightarrow> bool" where
  "isinstance_NamespaceDoc k = (k = ModuleDoc \<or> k = ClassDoc \<or> k = NamespaceDoc)"

text \<open>
  What \<open>__class__\<close> and \<open>__dict__\<close> of a \<open>ValueDoc\<close> hold.  The fields of
  every class are in one record; the code reads a field only after the
  \<open>isinstance\<close> test for its class.  A dictionary of variables is the list of its
  values in iteration order, \<open>None\<close> when the attribute is \<open>UNKNOWN\<close>.
  \<open>pyval_name\<close> is \<open>pyval.__name__\<close> as \<open>DottedName\<close> reads it, \<open>None\<close> when
  \<open>pyval\<close> is \<open>UNKNOWN\<close> or has no \<open>__name__\<close>.
\<close>

record valdoc =
  cls :: kind
  canonical_name :: "dotted_name tri"
  canonical_container :: "ref tri"
  imported_from :: "dotted_name tri"
  pyval_name :: "dotted_name option"
  variables :: "vardoc list option"
  local_variables :: "vardoc list option"
  package :: "ref tri"
  submodules :: "ref list option"
  bases :: "ref list option"
  subclasses :: "ref list option"
  fget :: "ref tri"
  fset :: "ref tri"
  fdel :: "ref tri"

text \<open>
  The index and the store it works on.  \<open>heap\<close> holds the contents of the objects and
  \<open>content\<close> says which cell of \<open>heap\<close> an object currently shows: the merge
  step makes one object share the class and the \<open>__dict__\<close> of another, after which a
  write through either is seen through both.  Python sets are lists without duplicates
  in insertion order; \<open>contained_valdocs\<close> can hold Python's \<open>None\<close>.
\<close>

record docindex =
  heap :: "valdoc list"
  content :: "ref list"
  root_list :: "ref list"
  reachable_valdocs :: "ref list"
  reachable_vardocs :: "vardoc list"
  contained_valdocs :: "ref option list"
  score_dict :: "ref \<Rightarrow> int option"
  unreachable_names :: "dotted_name list"

definition set_add :: "'a list \<Rightarrow> 'a \<Rightarrow> 'a list" where
  "set_add xs x = (if x \<in> set xs then xs else xs @ [x])"

definition set_discard :: "'a list \<Rightarrow> 'a \<Rightarrow> 'a list" where
  "set_discard xs x = removeAll x xs"

definition obj :: "docindex \<Rightarrow> ref \<Rightarrow> valdoc" where
  "obj st r = heap st ! (content st ! r)"

definition sys_maxint :: int where
  "sys_maxint = 9223372036854775807"

subsection \<open>What is directly reachable from a value\<close>

text \<open>
  \<open>_vardocs_reachable_from\<close> and \<open>_valdocs_reachable_from\<close> read the class and
  the attributes of the value; \<open>vardocs_of\<close> and \<open>valdocs_of\<close> are the lists they
  build from what the object shows.
\<close>

definition vardocs_of :: "valdoc \<Rightarrow> vardoc list" where
  "vardocs_of d =
     (if cls d = ClassDoc
      then (case local_variables d of Some vs \<Rightarrow> vs | None \<Rightarrow> [])
      else [])
     @ (if isinstance_NamespaceDoc (cls d)
        then (case variables d of Some vs \<Rightarrow> vs | None \<Rightarrow> [])
        else [])"

definition vardocs_reachable_from :: "docindex \<Rightarrow> ref \<Rightarrow> vardoc list" where
  "vardocs_reachable_from st val_doc = vardocs_of (obj st val_doc)"

definition known_ref :: "ref tri \<Rightarrow> ref list" where
  "known_ref t = (case t of Known r \<Rightarrow> [r] | PyNone \<Rightarrow> [] | UNKNOWN \<Rightarrow> [])"

definition valdocs_of :: "valdoc \<Rightarrow> ref list" where
  "valdocs_of d =
     (if cls d = ModuleDoc then known_ref (package d) else [])
     @ (if cls d = ClassDoc
        then (case bases d of Some bs \<Rightarrow> bs | None \<Rightarrow> [])
             @ (case subclasses d of Some bs \<Rightarrow> bs | None \<Rightarrow> [])
        else [])
     @ (if cls d = PropertyDoc
        then known_ref (fget d) @ known_ref (fset d) @ known_ref (fdel d)
        else [])"

definition valdocs_reachable_from :: "docindex \<Rightarrow> ref \<Rightarrow> ref list" where
  "valdocs_reachable_from st val_doc = valdocs_of (obj st val_doc)"

subsection \<open>The containment walk\<close>

text \<open>
  \<open>_find_contained_valdocs\<close>.  The argument is a \<open>ValueDoc\<close> or \<open>None\<close>: the
  loop passes \<open>var_doc.value\<close> on whenever it is not \<open>UNKNOWN\<close>.  For \<open>None\<close>
  both \<open>isinstance\<close> tests of \<open>_vardocs_reachable_from\<close> fail and the list of
  variables is empty.
\<close>

definition tri_to_option :: "'a tri \<Rightarrow> 'a option" where
  "tri_to_option t = (case t of Known r \<Rightarrow> Some r | PyNone \<Rightarrow> None | UNKNOWN \<Rightarrow> None)"

text \<open>The body of the loop over the variables of the value, for one variable.\<close>

definition contain_variable ::
  "(ref option \<Rightarrow> docindex \<Rightarrow> docindex outcome) \<Rightarrow> vardoc \<Rightarrow> docindex \<Rightarrow> docindex outcome"
  where
  "contain_variable recurse var_doc st =
     (let st1 = st\<lparr>reachable_vardocs := set_add (reachable_vardocs st) var_doc\<rparr> in
      if var_value var_doc = UNKNOWN then Done st1
      else if is_imported var_doc \<noteq> Known True
      then recurse (tri_to_option (var_value var_doc)) st1
      else Done st1)"

primrec find_contained_valdocs :: "nat \<Rightarrow> ref option \<Rightarrow> docindex \<Rightarrow> docindex outcome" where
  "find_contained_valdocs 0 val_doc st = OutOfFuel"
| "find_contained_valdocs (Suc k) val_doc st =
     (if val_doc \<in> set (contained_valdocs st) then Done st
      else for_each (contain_variable (find_contained_valdocs k))
             (case val_doc of Some r \<Rightarrow> vardocs_reachable_from st r | None \<Rightarrow> [])
             (st\<lparr>contained_valdocs := set_add (contained_valdocs st) val_doc\<rparr>))"

subsection \<open>Names for values that no variable reaches\<close>

text \<open>
  \<open>_unreachable_name\<close> builds a name that starts with \<open>??\<close> and, when the name
  is taken, appends \<open>-2\<close>, \<open>-3\<close>, ... until it is free.  The text
  \<open>'%s-%s' % (name, n)\<close> is read back by \<open>DottedName\<close>, so the suffix ends up on
  the last identifier.  \<open>str_nat\<close> is Python's decimal \<open>str\<close> of a number.
\<close>

definition digit_char :: "nat \<Rightarrow> char" where
  "digit_char d = char_of (48 + d)"

fun str_nat :: "nat \<Rightarrow> string" where
  "str_nat n = (if n < 10 then [digit_char n] else str_nat (n div 10) @ [digit_char (n mod 10)])"

definition suffixed :: "dotted_name \<Rightarrow> nat \<Rightarrow> dotted_name" where
  "suffixed name n = butlast name @ [last name @ ''-'' @ str_nat n]"

fun read_nat :: "string \<Rightarrow> nat" where
  "read_nat cs = foldl (\<lambda>a c. 10 * a + (of_char c - 48)) 0 cs"

lemma read_nat_snoc: "read_nat (cs @ [c]) = 10 * read_nat cs + (of_char c - 48)"
  by simp

lemma of_char_digit_char: "d < 10 \<Longrightarrow> of_char (digit_char d) - 48 = d"
  by (simp add: digit_char_def)

lemma read_nat_str_nat: "read_nat (str_nat n) = n"
proof (induction n rule: str_nat.induct)
  case (1 n)
  show ?case
  proof (cases "n < 10")
    case True
    then show ?thesis by (simp add: of_char_digit_char)
  next
    case False
    have "read_nat (str_nat n) = read_nat (str_nat (n div 10) @ [digit_char (n mod 10)])"
      using False by (subst str_nat.simps) simp
    also have "\<dots> = 10 * read_nat (str_nat (n div 10)) + (of_char (digit_char (n mod 10)) - 48)"
      by (rule read_nat_snoc)
    also have "\<dots> = 10 * (n div 10) + n mod 10"
      using 1 False by (simp add: of_char_digit_char)
    finally show ?thesis by simp
  qed
qed

lemma inj_suffixed: "inj (suffixed name)"
proof (rule injI)
  fix m n assume "suffixed name m = suffixed name n"
  then have "str_nat m = str_nat n" by (simp add: suffixed_def)
  then have "read_nat (str_nat m) = read_nat (str_nat n)" by simp
  then show "m = n" by (simp only: read_nat_str_nat)
qed

lemma finite_suffixes: "finite {m. suffixed name m \<in> set names}"
proof -
  have "finite (suffixed name -` set names)"
    by (rule finite_vimageI[OF _ inj_suffixed]) simp
  then show ?thesis by (simp add: vimage_def)
qed

function first_unused :: "dotted_name list \<Rightarrow> dotted_name \<Rightarrow> nat \<Rightarrow> nat" where
  "first_unused names name n =
     (if suffixed name n \<in> set names then first_unused names name (Suc n) else n)"
  by pat_completeness auto
termination
proof (relation "measure (\<lambda>(names, name, n). Suc (Max {m. suffixed name m \<in> set names}) - n)")
  show "wf (measure (\<lambda>(names, name, n). Suc (Max {m. suffixed name m \<in> set names}) - n))"
    by simp
next
  fix names :: "dotted_name list" and name :: dotted_name and n :: nat
  assume "suffixed name n \<in> set names"
  then have "n \<le> Max {m. suffixed name m \<in> set names}"
    by (intro Max_ge finite_suffixes) simp
  then show "((names, name, Suc n), (names, name, n))
      \<in> measure (\<lambda>(names, name, n). Suc (Max {m. suffixed name m \<in> set names}) - n)"
    by simp
qed

definition unreachable_name :: "docindex \<Rightarrow> ref \<Rightarrow> dotted_name \<times> docindex" where
  "unreachable_name st val_doc =
     (let name = (case imported_from (obj st val_doc) of
                    Known q \<Rightarrow> ''??'' # q
                  | _ \<Rightarrow> (case pyval_name (obj st val_doc) of
                            Some q \<Rightarrow> ''??'' # q
                          | None \<Rightarrow> [''??'']));
          name' = (if name \<in> set (unreachable_names st)
                   then suffixed name (first_unused (unreachable_names st) name 2)
                   else name)
      in (name', st\<lparr>unreachable_names := set_add (unreachable_names st) name'\<rparr>))"

subsection \<open>Canonical names\<close>

text \<open>
  Writing \<open>canonical_name\<close> and \<open>canonical_container\<close> of an object changes the
  cell of the store that the object shows.
\<close>

definition set_canonical :: "docindex \<Rightarrow> ref \<Rightarrow> dotted_name tri \<Rightarrow> ref tri \<Rightarrow> docindex" where
  "set_canonical st val_doc name parent =
     st\<lparr>heap := (heap st)[content st ! val_doc :=
          (obj st val_doc)\<lparr>canonical_name := name, canonical_container := parent\<rparr>]\<rparr>"

text \<open>
  Modelled from the spec: \<open>DottedName(name, var_doc.name)\<close> appends the identifier
  to the name.  \<open>name\<close> can be \<open>None\<close> (a value that came with
  \<open>canonical_name = None\<close>), which is no piece of a name: the constructor raises.
\<close>

definition DottedName2 :: "dotted_name tri \<Rightarrow> string \<Rightarrow> error + dotted_name" where
  "DottedName2 name ident = (case name of Known p \<Rightarrow> Inr (p @ [ident]) | _ \<Rightarrow> Inl BadDottedName)"

text \<open>The score of a variable's name, from the score of its namespace.\<close>

definition vardoc_score :: "int \<Rightarrow> vardoc \<Rightarrow> int" where
  "vardoc_score score var_doc =
     (score - 1)
     - (if is_imported var_doc = UNKNOWN then 10
        else if is_imported var_doc = Known True then 100 else 0)
     - (if is_alias var_doc = UNKNOWN then 10
        else if is_alias var_doc = Known True then 1000 else 0)"

text \<open>
  \<open>_assign_canonical_names\<close>, in the order of the source: the test that ends a
  visit at once, the update of the name and the score, the loop over the variables and
  the loop over the directly reachable values.  \<open>parent\<close> is \<open>None\<close> for a root.
\<close>

definition already_named :: "docindex \<Rightarrow> ref \<Rightarrow> int \<Rightarrow> bool" where
  "already_named st val_doc score =
     (case score_dict st val_doc of Some old \<Rightarrow> score \<le> old | None \<Rightarrow> False)"

text \<open>
  The update returns the state, and the name and the score that the two loops go on
  with: those of the value itself when it is seen for the first time and has a name.
\<close>

definition update_name ::
  "docindex \<Rightarrow> ref \<Rightarrow> dotted_name tri \<Rightarrow> int \<Rightarrow> ref tri \<Rightarrow> docindex \<times> dotted_name tri \<times> int"
  where
  "update_name st val_doc name score parent =
     (if score_dict st val_doc = None \<and> canonical_name (obj st val_doc) \<noteq> UNKNOWN
      then (st\<lparr>score_dict := (score_dict st)(val_doc \<mapsto> sys_maxint)\<rparr>,
            canonical_name (obj st val_doc), 0)
      else if (case score_dict st val_doc of Some old \<Rightarrow> score > old | None \<Rightarrow> True)
      then ((set_canonical st val_doc name parent)
              \<lparr>score_dict := (score_dict st)(val_doc \<mapsto> score)\<rparr>, name, score)
      else (st, name, score))"

text \<open>
  The body of the loop over the variables.  A variable whose value is \<open>None\<close> makes
  the recursive call read \<open>None.canonical_name\<close>.
\<close>

definition name_variable ::
  "(ref \<Rightarrow> dotted_name tri \<Rightarrow> int \<Rightarrow> ref tri \<Rightarrow> docindex \<Rightarrow> docindex outcome)
   \<Rightarrow> ref \<Rightarrow> dotted_name tri \<Rightarrow> int \<Rightarrow> vardoc \<Rightarrow> docindex \<Rightarrow> docindex outcome" where
  "name_variable recurse val_doc name score var_doc st =
     (if var_value var_doc = UNKNOWN then Done st
      else
        case DottedName2 name (var_name var_doc) of
          Inl e \<Rightarrow> Raised e
        | Inr dotted \<Rightarrow>
            (case var_value var_doc of
               Known r \<Rightarrow>
                 recurse r
                   (case imported_from (obj st r) of Known q \<Rightarrow> Known q | _ \<Rightarrow> Known dotted)
                   (vardoc_score score var_doc) (Known val_doc) st
             | _ \<Rightarrow> Raised AttributeError))"

text \<open>The body of the loop over the directly reachable values.\<close>

definition name_reachable ::
  "(ref \<Rightarrow> dotted_name tri \<Rightarrow> int \<Rightarrow> ref tri \<Rightarrow> docindex \<Rightarrow> docindex outcome)
   \<Rightarrow> ref \<Rightarrow> ref \<Rightarrow> docindex \<Rightarrow> docindex outcome" where
  "name_reachable recurse val_doc val_doc_2 st =
     (case unreachable_name st val_doc_2 of
        (name, st1) \<Rightarrow> recurse val_doc_2 (Known name) (- 10000) (Known val_doc) st1)"

primrec assign_canonical_names ::
  "nat \<Rightarrow> ref \<Rightarrow> dotted_name tri \<Rightarrow> int \<Rightarrow> ref tri \<Rightarrow> docindex \<Rightarrow> docindex outcome" where
  "assign_canonical_names 0 val_doc name score parent st = OutOfFuel"
| "assign_canonical_names (Suc k) val_doc name score parent st =
     (if already_named st val_doc score then Done st
      else
        case update_name (st\<lparr>reachable_valdocs := set_add (reachable_valdocs st) val_doc\<rparr>)
               val_doc name score parent of
          (st2, name1, score1) \<Rightarrow>
            (case for_each (name_variable (assign_canonical_names k) val_doc name1 score1)
                    (vardocs_reachable_from st2 val_doc) st2 of
               Done st3 \<Rightarrow>
                 for_each (name_reachable (assign_canonical_names k) val_doc)
                   (valdocs_reachable_from st3 val_doc) st3
             | Raised e \<Rightarrow> Raised e
             | OutOfFuel \<Rightarrow> OutOfFuel))"

subsection \<open>Looking names up\<close>

text \<open>
  \<open>_get_from\<close> walks the identifiers of a name down from a root.  The pair it
  carries is \<open>(var_doc, val_doc)\<close>; \<open>None\<close> in a component is Python's
  \<open>None\<close>.  The inner loop over the submodules of a module builds
  \<open>DottedName(val_doc.canonical_name, identifier)\<close> for each submodule it compares.
\<close>

fun find_submodule :: "docindex \<Rightarrow> ref \<Rightarrow> string \<Rightarrow> ref list \<Rightarrow> error + ref option" where
  "find_submodule st val_doc identifier [] = Inr None"
| "find_submodule st val_doc identifier (submodule # rest) =
     (case DottedName2 (canonical_name (obj st val_doc)) identifier of
        Inl e \<Rightarrow> Inl e
      | Inr dotted \<Rightarrow>
          if canonical_name (obj st submodule) = Known dotted then Inr (Some submodule)
          else find_submodule st val_doc identifier rest)"

fun get_from ::
  "docindex \<Rightarrow> vardoc option \<Rightarrow> ref option \<Rightarrow> dotted_name \<Rightarrow> error + (vardoc option \<times> ref option)"
  where
  "get_from st var_doc val_doc [] = Inr (var_doc, val_doc)"
| "get_from st var_doc val_doc (identifier # rest) =
     (case val_doc of
        None \<Rightarrow> Inr (None, None)
      | Some v \<Rightarrow>
          (case find (\<lambda>child. var_name child = identifier) (vardocs_reachable_from st v) of
             Some child \<Rightarrow> get_from st (Some child) (tri_to_option (var_value child)) rest
           | None \<Rightarrow>
               if cls (obj st v) = ModuleDoc
               then (case submodules (obj st v) of
                       None \<Rightarrow> Inr (None, None)
                     | Some subs \<Rightarrow>
                         (case find_submodule st v identifier subs of
                            Inl e \<Rightarrow> Inl e
                          | Inr None \<Rightarrow> Inr (None, None)
                          | Inr (Some submodule) \<Rightarrow> get_from st None (Some submodule) rest))
               else Inr (None, None)))"

text \<open>
  \<open>_get\<close>: the loop over the root list.  \<open>canonical_name.dominates\<close> on a root
  whose canonical name is \<open>None\<close> or \<open>UNKNOWN\<close> is an attribute error.
\<close>

fun get_in_roots ::
  "docindex \<Rightarrow> ref list \<Rightarrow> dotted_name \<Rightarrow> error + (vardoc option \<times> ref option)" where
  "get_in_roots st [] name = Inr (None, None)"
| "get_in_roots st (root_valdoc # rest) name =
     (case canonical_name (obj st root_valdoc) of
        Known root_name \<Rightarrow>
          if dominates root_name name
          then (case get_from st None (Some root_valdoc) (drop (length root_name) name) of
                  Inl e \<Rightarrow> Inl e
                | Inr (var_doc, val_doc) \<Rightarrow>
                    if var_doc \<noteq> None \<or> val_doc \<noteq> None then Inr (var_doc, val_doc)
                    else get_in_roots st rest name)
          else get_in_roots st rest name
      | _ \<Rightarrow> Inl AttributeError)"

definition get :: "docindex \<Rightarrow> dotted_name \<Rightarrow> error + (vardoc option \<times> ref option)" where
  "get st name = get_in_roots st (root_list st) name"

definition get_vardoc :: "docindex \<Rightarrow> dotted_name \<Rightarrow> error + vardoc option" where
  "get_vardoc st name = (case get st name of Inl e \<Rightarrow> Inl e | Inr (var, val) \<Rightarrow> Inr var)"

definition get_valdoc :: "docindex \<Rightarrow> dotted_name \<Rightarrow> error + ref option" where
  "get_valdoc st name = (case get st name of Inl e \<Rightarrow> Inl e | Inr (var, val) \<Rightarrow> Inr val)"

subsection \<open>Resolving imports\<close>

text \<open>
  The merge of \<open>val_doc\<close> with \<open>src_doc\<close>: \<open>val_doc\<close> leaves the two sets
  when \<open>src_doc\<close> is in them, and from then on shows the class and the
  \<open>__dict__\<close> of \<open>src_doc\<close>.
\<close>

definition merge_into :: "docindex \<Rightarrow> ref \<Rightarrow> ref \<Rightarrow> docindex" where
  "merge_into st val_doc src_doc =
     st\<lparr>reachable_valdocs :=
          (if src_doc \<in> set (reachable_valdocs st)
           then set_discard (reachable_valdocs st) val_doc else reachable_valdocs st),
        contained_valdocs :=
          (if Some src_doc \<in> set (contained_valdocs st)
           then set_discard (contained_valdocs st) (Some val_doc) else contained_valdocs st),
        content := (content st)[val_doc := content st ! src_doc]\<rparr>"

text \<open>The \<open>while\<close> loop that follows the \<open>imported_from\<close> links of one value.\<close>

primrec resolve_imported_from :: "nat \<Rightarrow> ref \<Rightarrow> docindex \<Rightarrow> docindex outcome" where
  "resolve_imported_from 0 val_doc st = OutOfFuel"
| "resolve_imported_from (Suc k) val_doc st =
     (case imported_from (obj st val_doc) of
        Known src_name \<Rightarrow>
          (case get_valdoc st src_name of
             Inl e \<Rightarrow> Raised e
           | Inr None \<Rightarrow> Done st
           | Inr (Some src_doc) \<Rightarrow>
               if src_doc \<noteq> val_doc
               then resolve_imported_from k val_doc (merge_into st val_doc src_doc)
               else Done st)
      | _ \<Rightarrow> Done st)"

text \<open>
  The loop over \<open>list(self.reachable_valdocs)\<close>.  Python does not say in which order
  a \<open>Set\<close> hands out its elements; the order in which the values were added stands
  for it here.
\<close>

definition resolve_imports :: "nat \<Rightarrow> docindex \<Rightarrow> docindex outcome" where
  "resolve_imports k st = for_each (resolve_imported_from k) (reachable_valdocs st) st"

subsection \<open>Canonical containers\<close>

definition set_canonical_container :: "docindex \<Rightarrow> ref \<Rightarrow> ref tri \<Rightarrow> docindex" where
  "set_canonical_container st val_doc c =
     st\<lparr>heap := (heap st)[content st ! val_doc := (obj st val_doc)\<lparr>canonical_container := c\<rparr>]\<rparr>"

text \<open>
  The body of the last loop of \<open>__init__\<close>, for one reachable value.  The two inner
  loops assign \<open>container_doc\<close> whenever a variable of it is bound to the value.
\<close>

definition binds :: "vardoc list \<Rightarrow> ref \<Rightarrow> bool" where
  "binds vars val_doc = (\<exists>var \<in> set vars. var_value var = Known val_doc)"

definition find_canonical_container :: "ref \<Rightarrow> docindex \<Rightarrow> docindex outcome" where
  "find_canonical_container val_doc st =
     (if canonical_container (obj st val_doc) \<noteq> UNKNOWN then Done st
      else if cls (obj st val_doc) = ModuleDoc
      then Done (set_canonical_container st val_doc (package (obj st val_doc)))
      else
        (case canonical_name (obj st val_doc) of
           Known name \<Rightarrow>
             (case container name of
                None \<Rightarrow> Done (set_canonical_container st val_doc PyNone)
              | Some container_name \<Rightarrow>
                  (case get_valdoc st container_name of
                     Inl e \<Rightarrow> Raised e
                   | Inr None \<Rightarrow> Done st
                   | Inr (Some container_doc) \<Rightarrow>
                       let st1 =
                             (if isinstance_NamespaceDoc (cls (obj st container_doc))
                                 \<and> (case variables (obj st container_doc) of
                                        Some vars \<Rightarrow> binds vars val_doc | None \<Rightarrow> False)
                              then set_canonical_container st val_doc (Known container_doc)
                              else st)
                       in
                       if cls (obj st1 container_doc) = ClassDoc
                       then (case local_variables (obj st1 container_doc) of
                               None \<Rightarrow> Raised AttributeError
                             | Some vars \<Rightarrow>
                                 Done (if binds vars val_doc
                                       then set_canonical_container st1 val_doc (Known container_doc)
                                       else st1))
                       else Done st1))
         | _ \<Rightarrow> Raised AttributeError))"

subsection \<open>Building the index\<close>

definition has_no_name :: "valdoc \<Rightarrow> bool" where
  "has_no_name d = (canonical_name d = PyNone \<or> canonical_name d = UNKNOWN)"

definition name_length :: "valdoc \<Rightarrow> nat" where
  "name_length d = (case canonical_name d of Known name \<Rightarrow> length name | _ \<Rightarrow> 0)"

definition empty_index :: "valdoc list \<Rightarrow> ref list \<Rightarrow> docindex" where
  "empty_index h root =
     \<lparr>heap = h, content = [0..<length h],
      root_list = sort_key (\<lambda>d. name_length (h ! d)) root,
      reachable_valdocs = [], reachable_vardocs = [], contained_valdocs = [],
      score_dict = Map.empty, unreachable_names = []\<rparr>"

text \<open>The first loop of \<open>__init__\<close>: the containment walk and the naming of each root.\<close>

definition index_root :: "nat \<Rightarrow> ref \<Rightarrow> docindex \<Rightarrow> docindex outcome" where
  "index_root k val_doc st =
     (case find_contained_valdocs k (Some val_doc) st of
        Done st1 \<Rightarrow>
          assign_canonical_names k val_doc (canonical_name (obj st1 val_doc)) 0 PyNone st1
      | Raised e \<Rightarrow> Raised e
      | OutOfFuel \<Rightarrow> OutOfFuel)"

definition index_roots :: "nat \<Rightarrow> docindex \<Rightarrow> docindex outcome" where
  "index_roots k st = for_each (index_root k) (root_list st) st"

text \<open>
  \<open>DocIndex.__init__\<close> on a store \<open>h\<close> of freshly built objects, each with a
  \<open>__dict__\<close> of its own, and the list \<open>root\<close>.  The conflict check after the
  \<open>return\<close> is dead code and is left out.
\<close>

definition DocIndex :: "nat \<Rightarrow> valdoc list \<Rightarrow> ref list \<Rightarrow> docindex outcome" where
  "DocIndex k h root =
     (if \<exists>apidoc \<in> set root. has_no_name (h ! apidoc) then Raised RootWithoutName
      else
        case index_roots k (empty_index h root) of
          Done st1 \<Rightarrow>
            (case resolve_imports k st1 of
               Done st2 \<Rightarrow> for_each find_canonical_container (reachable_valdocs st2) st2
             | Raised e \<Rightarrow> Raised e
             | OutOfFuel \<Rightarrow> OutOfFuel)
        | Raised e \<Rightarrow> Raised e
        | OutOfFuel \<Rightarrow> OutOfFuel)"

subsection \<open>Objects for the examples\<close>

text \<open>
  Modelled from the spec: a \<open>ValueDoc\<close> of the given class as the constructors of
  \<open>epydoc.apidoc\<close> leave it, every attribute \<open>UNKNOWN\<close>; and a variable bound to
  a value, neither imported nor an alias.
\<close>

definition new_valdoc :: "kind \<Rightarrow> valdoc" where
  "new_valdoc k =
     \<lparr>cls = k, canonical_name = UNKNOWN, canonical_container = UNKNOWN,
      imported_from = UNKNOWN, pyval_name = None, variables = None, local_variables = None,
      package = UNKNOWN, submodules = None, bases = None, subclasses = None,
      fget = UNKNOWN, fset = UNKNOWN, fdel = UNKNOWN\<rparr>"

definition new_vardoc :: "string \<Rightarrow> ref \<Rightarrow> vardoc" where
  "new_vardoc name val_doc =
     \<lparr>var_name = name, var_value = Known val_doc,
      is_imported = Known False, is_alias = Known False\<rparr>"

text \<open>The index a call returned, for the examples.\<close>

definition the_Done :: "'a outcome \<Rightarrow> 'a" where
  "the_Done r = (case r of Done x \<Rightarrow> x)"

definition is_Done :: "'a outcome \<Rightarrow> bool" where
  "is_Done r = (case r of Done x \<Rightarrow> True | _ \<Rightarrow> False)"

text \<open>
  Two root modules \<open>a\<close> and \<open>a.b\<close>; only the second has a variable, \<open>c\<close>.
\<close>

definition example_two_roots :: "valdoc list" where
  "example_two_roots =
     [(new_valdoc ModuleDoc)\<lparr>canonical_name := Known [''a''], variables := Some []\<rparr>,
      (new_valdoc ModuleDoc)\<lparr>canonical_name := Known [''a'', ''b''],
         variables := Some [new_vardoc ''c'' 2]\<rparr>,
      new_valdoc GenericValueDoc]"

subsection \<open>Notions used in the statements\<close>

text \<open>
  The lookup passes over a root when the root has a name and either the name does not
  dominate the name looked up or the walk below the root finds nothing.
\<close>

definition passed_over :: "docindex \<Rightarrow> dotted_name \<Rightarrow> ref \<Rightarrow> bool" where
  "passed_over st name r =
     (case canonical_name (obj st r) of
        Known rn \<Rightarrow>
          dominates rn name \<longrightarrow>
            get_from st None (Some r) (drop (length rn) name) = Inr (None, None)
      | _ \<Rightarrow> False)"

text \<open>What the containment walk and the naming pass leave alone.\<close>

definition walk_frame :: "docindex \<Rightarrow> docindex \<Rightarrow> bool" where
  "walk_frame st st' =
     (heap st' = heap st \<and> content st' = content st \<and> root_list st' = root_list st
      \<and> reachable_valdocs st' = reachable_valdocs st \<and> score_dict st' = score_dict st
      \<and> unreachable_names st' = unreachable_names st)"

definition naming_frame :: "docindex \<Rightarrow> docindex \<Rightarrow> bool" where
  "naming_frame st st' =
     (length (heap st') = length (heap st) \<and> content st' = content st
      \<and> root_list st' = root_list st \<and> reachable_vardocs st' = reachable_vardocs st
      \<and> contained_valdocs st' = contained_valdocs st)"

definition wf_heap :: "valdoc list \<Rightarrow> bool" where
  "wf_heap h =
     (\<forall>d \<in> set h.
        (\<forall>var \<in> set (vardocs_of d). case var_value var of Known r \<Rightarrow> r < length h | _ \<Rightarrow> True)
        \<and> (\<forall>r \<in> set (valdocs_of d). r < length h))"

definition same_shape :: "valdoc \<Rightarrow> valdoc \<Rightarrow> bool" where
  "same_shape d d' =
     (d'\<lparr>canonical_name := canonical_name d, canonical_container := canonical_container d\<rparr> = d)"

definition shape_inv :: "valdoc list \<Rightarrow> docindex \<Rightarrow> bool" where
  "shape_inv h st =
     (content st = [0..<length h] \<and> length (heap st) = length h
      \<and> (\<forall>i < length h. same_shape (h ! i) (heap st ! i)))"

definition ledger_inv :: "nat \<Rightarrow> docindex \<Rightarrow> bool" where
  "ledger_inv n st = (\<forall>r x. score_dict st r = Some x \<longrightarrow> r < n \<and> x \<le> sys_maxint)"

definition naming_inv :: "valdoc list \<Rightarrow> docindex \<Rightarrow> bool" where
  "naming_inv h st = (shape_inv h st \<and> ledger_inv (length h) st)"






definition candidates :: "nat \<Rightarrow> ref option set" where
  "candidates n = insert None (Some ` {..<n})"

definition walk_inv :: "valdoc list \<Rightarrow> docindex \<Rightarrow> bool" where
  "walk_inv h s = (shape_inv h s \<and> set (contained_valdocs s) \<subseteq> candidates (length h))"


text \<open>
  Names that were there before indexing: a value without a score still has the canonical
  name it came with, and a value that came with a name has that name and, once
  visited, the score \<open>sys.maxint\<close>.
\<close>

definition kept_inv :: "valdoc list \<Rightarrow> docindex \<Rightarrow> bool" where
  "kept_inv h s =
     (\<forall>r < length h.
        (score_dict s r = None \<longrightarrow> canonical_name (heap s ! r) = canonical_name (h ! r))
        \<and> (canonical_name (h ! r) \<noteq> UNKNOWN \<longrightarrow>
             canonical_name (heap s ! r) = canonical_name (h ! r)
             \<and> (score_dict s r = None \<or> score_dict s r = Some sys_maxint)))"


definition is_name :: "dotted_name tri \<Rightarrow> bool" where
  "is_name name = (case name of Known nm \<Rightarrow> True | _ \<Rightarrow> False)"

definition roots_inv :: "valdoc list \<Rightarrow> docindex \<Rightarrow> bool" where
  "roots_inv h s = (naming_inv h s \<and> kept_inv h s \<and> set (contained_valdocs s) \<subseteq> candidates (length h))"

text \<open>A value that declares no import source keeps its contents through the merge step.\<close>

definition untouched :: "docindex \<Rightarrow> ref \<Rightarrow> docindex \<Rightarrow> bool" where
  "untouched st v s = (heap s = heap st \<and> content s ! v = content st ! v)"

text \<open>The last loop writes \<open>canonical_container\<close> only.\<close>

definition names_as :: "docindex \<Rightarrow> docindex \<Rightarrow> bool" where
  "names_as st s =
     (content s = content st \<and> reachable_valdocs s = reachable_valdocs st
      \<and> length (heap s) = length (heap st)
      \<and> (\<forall>i. canonical_name (heap s ! i) = canonical_name (heap st ! i)))"






text \<open>
  A module \<open>m\<close> with an imported variable \<open>X\<close> and a variable \<open>B\<close> of its own; the
  value of \<open>B\<close> says that it was imported from \<open>m.X\<close>.
\<close>

definition example_import_merge :: "valdoc list" where
  "example_import_merge =
     [(new_valdoc ModuleDoc)\<lparr>canonical_name := Known [''m''],
         variables := Some [(new_vardoc ''X'' 1)\<lparr>is_imported := Known True\<rparr>, new_vardoc ''B'' 2]\<rparr>,
      new_valdoc GenericValueDoc,
      (new_valdoc GenericValueDoc)\<lparr>imported_from := Known [''m'', ''X'']\<rparr>]"


text \<open>
  The variables the walk looks at for a value, the test that lets it go on to the value
  of a variable, and the value it goes on to.
\<close>

definition bindings_of :: "docindex \<Rightarrow> ref option \<Rightarrow> vardoc list" where
  "bindings_of st v = (case v of Some r \<Rightarrow> vardocs_reachable_from st r | None \<Rightarrow> [])"

definition followed :: "vardoc \<Rightarrow> bool" where
  "followed var = (var_value var \<noteq> UNKNOWN \<and> is_imported var \<noteq> Known True)"

definition target :: "vardoc \<Rightarrow> ref option" where
  "target var = tri_to_option (var_value var)"

text \<open>What the walk reaches from a value: the value, and the targets of followed variables.\<close>

inductive walk_reaches :: "docindex \<Rightarrow> ref option \<Rightarrow> ref option \<Rightarrow> bool" for st v where
  start: "walk_reaches st v v"
| step: "walk_reaches st v c \<Longrightarrow> var \<in> set (bindings_of st c) \<Longrightarrow> followed var
           \<Longrightarrow> walk_reaches st v (target var)"

text \<open>
  A contained value is finished when each of its variables is recorded and the target
  of each followed variable is contained.
\<close>

definition finished :: "docindex \<Rightarrow> ref option \<Rightarrow> bool" where
  "finished s c =
     (\<forall>var \<in> set (bindings_of s c).
        var \<in> set (reachable_vardocs s) \<and> (followed var \<longrightarrow> target var \<in> set (contained_valdocs s)))"

definition walk_closed :: "docindex \<Rightarrow> bool" where
  "walk_closed s = (\<forall>c \<in> set (contained_valdocs s). finished s c)"

definition closed_except :: "ref option set \<Rightarrow> docindex \<Rightarrow> bool" where
  "closed_except A s = (\<forall>c \<in> set (contained_valdocs s). c \<notin> A \<longrightarrow> finished s c)"

text \<open>A module whose only variable has the value \<open>None\<close>.\<close>

definition example_none_target :: "valdoc list" where
  "example_none_target =
     [(new_valdoc ModuleDoc)\<lparr>canonical_name := Known [''m''],
         variables := Some [(new_vardoc ''x'' 0)\<lparr>var_value := PyNone\<rparr>]\<rparr>]"

text \<open>
  Two roots: a value that came with the name \<open>z\<close> and was imported from \<open>m.A\<close>, and
  the module \<open>m\<close> with the variable \<open>A\<close>.
\<close>

definition example_merged_root :: "valdoc list" where
  "example_merged_root =
     [(new_valdoc GenericValueDoc)\<lparr>canonical_name := Known [''z''],
         imported_from := Known [''m'', ''A'']\<rparr>,
      (new_valdoc ModuleDoc)\<lparr>canonical_name := Known [''m''],
         variables := Some [new_vardoc ''A'' 2]\<rparr>,
      new_valdoc ClassDoc]"




section \<open>Properties\<close>

subsection \<open>Which errors a pass can raise\<close>

lemma for_each_not_raised:
  "(\<And>x s. x \<in> set xs \<Longrightarrow> body x s \<noteq> Raised e) \<Longrightarrow> for_each body xs st \<noteq> Raised e"
  by (induction xs arbitrary: st) (auto split: outcome.splits)

lemma find_contained_valdocs_not_raised: "find_contained_valdocs k v st \<noteq> Raised e"
proof (induction k arbitrary: v st)
  case 0
  then show ?case by simp
next
  case (Suc k)
  have "contain_variable (find_contained_valdocs k) x s \<noteq> Raised e" for x s
    using Suc by (simp add: contain_variable_def Let_def)
  then show ?case by (simp add: for_each_not_raised)
qed

lemma assign_canonical_names_no_RootWithoutName:
  "assign_canonical_names k v name score parent st \<noteq> Raised RootWithoutName"
proof (induction k arbitrary: v name score parent st)
  case 0
  then show ?case by simp
next
  case (Suc k)
  have a: "name_variable (assign_canonical_names k) v' n' s' x s \<noteq> Raised RootWithoutName"
    for v' n' s' x s
    using Suc by (auto simp: name_variable_def DottedName2_def split: sum.splits tri.splits)
  have b: "name_reachable (assign_canonical_names k) v' x s \<noteq> Raised RootWithoutName" for v' x s
    using Suc by (simp add: name_reachable_def split: prod.splits)
  show ?case
    using for_each_not_raised[of _ "name_variable (assign_canonical_names k) _ _ _" RootWithoutName, OF a]
      for_each_not_raised[of _ "name_reachable (assign_canonical_names k) _" RootWithoutName, OF b]
    by (auto split: prod.splits outcome.splits)
qed

lemma index_roots_no_RootWithoutName: "index_roots k st \<noteq> Raised RootWithoutName"
  unfolding index_roots_def
  by (rule for_each_not_raised)
     (auto simp: index_root_def find_contained_valdocs_not_raised
        assign_canonical_names_no_RootWithoutName split: outcome.splits)

lemma find_submodule_no_RootWithoutName: "find_submodule st v i subs \<noteq> Inl RootWithoutName"
  by (induction subs) (auto simp: DottedName2_def split: sum.splits tri.splits)

lemma get_from_no_RootWithoutName: "get_from st var val name \<noteq> Inl RootWithoutName"
  by (induction st var val name rule: get_from.induct)
     (auto simp: find_submodule_no_RootWithoutName split: option.splits sum.splits)

lemma get_in_roots_no_RootWithoutName: "get_in_roots st rs name \<noteq> Inl RootWithoutName"
  by (induction st rs name rule: get_in_roots.induct)
     (auto simp: get_from_no_RootWithoutName split: tri.splits sum.splits)

lemma get_valdoc_no_RootWithoutName: "get_valdoc st name \<noteq> Inl RootWithoutName"
  using get_in_roots_no_RootWithoutName[of st "root_list st" name]
  by (auto simp: get_valdoc_def get_def split: sum.splits)

lemma resolve_imported_from_no_RootWithoutName:
  "resolve_imported_from k v st \<noteq> Raised RootWithoutName"
  by (induction k arbitrary: st)
     (auto simp: get_valdoc_no_RootWithoutName split: tri.splits sum.splits option.splits)

lemma resolve_imports_no_RootWithoutName: "resolve_imports k st \<noteq> Raised RootWithoutName"
  unfolding resolve_imports_def
  by (rule for_each_not_raised) (rule resolve_imported_from_no_RootWithoutName)

lemma find_canonical_container_no_RootWithoutName:
  "find_canonical_container v st \<noteq> Raised RootWithoutName"
  by (auto simp: find_canonical_container_def Let_def get_valdoc_no_RootWithoutName
        split: tri.splits option.splits sum.splits)


text \<open>
  Claim C9.  The constructor raises the error for a root without a canonical name
  exactly when some value of the root set has \<open>None\<close> or \<open>UNKNOWN\<close> as its
  canonical name.  It does so whatever the fuel, also with none: the test comes before
  any pass.  When every root has a name, no later pass raises this error.
\<close>

theorem DocIndex_RootWithoutName:
  "DocIndex k h root = Raised RootWithoutName
     \<longleftrightarrow> (\<exists>apidoc \<in> set root. has_no_name (h ! apidoc))"
  using index_roots_no_RootWithoutName resolve_imports_no_RootWithoutName
    for_each_not_raised[of _ find_canonical_container RootWithoutName,
      OF find_canonical_container_no_RootWithoutName]
  by (auto simp: DocIndex_def split: outcome.splits)

theorem DocIndex_RootWithoutName_witness:
  "DocIndex 0 [new_valdoc ModuleDoc] [0] = Raised RootWithoutName
   \<and> DocIndex 0 [new_valdoc ModuleDoc, (new_valdoc ClassDoc)\<lparr>canonical_name := PyNone\<rparr>] [1]
       = Raised RootWithoutName
   \<and> DocIndex 3 [(new_valdoc ModuleDoc)\<lparr>canonical_name := Known [''m'']\<rparr>] [0]
       \<noteq> Raised RootWithoutName"
  using DocIndex_RootWithoutName[of 0 "[new_valdoc ModuleDoc]" "[0]"]
    DocIndex_RootWithoutName[of 0
      "[new_valdoc ModuleDoc, (new_valdoc ClassDoc)\<lparr>canonical_name := PyNone\<rparr>]" "[1]"]
    DocIndex_RootWithoutName[of 3 "[(new_valdoc ModuleDoc)\<lparr>canonical_name := Known [''m'']\<rparr>]" "[0]"]
  by (simp add: has_no_name_def new_valdoc_def)

subsection \<open>Loops and frames\<close>

lemma Done_the_Done: "is_Done r \<Longrightarrow> r = Done (the_Done r)"
  by (cases r) (simp_all add: is_Done_def the_Done_def)

lemma for_each_invariant:
  assumes "for_each body xs st = Done st'" and "P st"
    and "\<And>x s s'. x \<in> set xs \<Longrightarrow> P s \<Longrightarrow> body x s = Done s' \<Longrightarrow> P s'"
  shows "P st'"
  using assms
proof (induction xs arbitrary: st)
  case Nil
  then show ?case by simp
next
  case (Cons x xs)
  from Cons.prems(1) obtain s1 where s1: "body x st = Done s1" and rest: "for_each body xs s1 = Done st'"
    by (auto split: outcome.splits)
  have "P s1" by (rule Cons.prems(3)[OF _ Cons.prems(2) s1]) simp
  show ?case
    by (rule Cons.IH[OF rest \<open>P s1\<close>]) (rule Cons.prems(3), auto)
qed

lemma find_contained_valdocs_frame:
  "find_contained_valdocs k v st = Done st' \<Longrightarrow> walk_frame st st'"
proof (induction k arbitrary: v st st')
  case 0
  then show ?case by simp
next
  case (Suc k)
  show ?case
  proof (cases "v \<in> set (contained_valdocs st)")
    case True
    then show ?thesis using Suc.prems by (simp add: walk_frame_def)
  next
    case False
    let ?st1 = "st\<lparr>contained_valdocs := set_add (contained_valdocs st) v\<rparr>"
    from False Suc.prems
    have run: "for_each (contain_variable (find_contained_valdocs k))
                 (case v of Some r \<Rightarrow> vardocs_reachable_from st r | None \<Rightarrow> []) ?st1 = Done st'"
      by simp
    show ?thesis
    proof (rule for_each_invariant[OF run, where P = "walk_frame st"])
      show "walk_frame st ?st1" by (simp add: walk_frame_def)
    next
      fix x s s'
      assume s: "walk_frame st s" and b: "contain_variable (find_contained_valdocs k) x s = Done s'"
      let ?s1 = "s\<lparr>reachable_vardocs := set_add (reachable_vardocs s) x\<rparr>"
      have s1: "walk_frame st ?s1" using s by (simp add: walk_frame_def)
      from b have "s' = ?s1 \<or> (\<exists>t. find_contained_valdocs k t ?s1 = Done s')"
        by (auto simp: contain_variable_def Let_def split: if_splits)
      then show "walk_frame st s'"
        using s1 Suc.IH by (auto simp: walk_frame_def)
    qed
  qed
qed

lemma naming_frame_refl: "naming_frame st st"
  by (simp add: naming_frame_def)

lemma naming_frame_trans: "naming_frame a b \<Longrightarrow> naming_frame b c \<Longrightarrow> naming_frame a c"
  by (simp add: naming_frame_def)

lemma update_name_frame:
  "update_name st v name score parent = (st', name', score') \<Longrightarrow> naming_frame st st'"
  by (auto simp: update_name_def naming_frame_def set_canonical_def split: if_splits)

lemma unreachable_name_frame: "unreachable_name st v = (name, st') \<Longrightarrow> naming_frame st st'"
  by (auto simp: unreachable_name_def naming_frame_def Let_def)

lemma assign_canonical_names_frame:
  "assign_canonical_names k v name score parent st = Done st' \<Longrightarrow> naming_frame st st'"
proof (induction k arbitrary: v name score parent st st')
  case 0
  then show ?case by simp
next
  case (Suc k)
  show ?case
  proof (cases "already_named st v score")
    case True
    then show ?thesis using Suc.prems by (simp add: naming_frame_refl)
  next
    case False
    obtain st2 name1 score1 where
      upd: "update_name (st\<lparr>reachable_valdocs := set_add (reachable_valdocs st) v\<rparr>) v name score parent
              = (st2, name1, score1)"
      by (metis prod_cases3)
    from False Suc.prems upd obtain st3 where
      loop1: "for_each (name_variable (assign_canonical_names k) v name1 score1)
                (vardocs_reachable_from st2 v) st2 = Done st3" and
      loop2: "for_each (name_reachable (assign_canonical_names k) v)
                (valdocs_reachable_from st3 v) st3 = Done st'"
      by (auto split: outcome.splits)
    have f2: "naming_frame st st2"
      using update_name_frame[OF upd] by (simp add: naming_frame_def)
    have f3: "naming_frame st st3"
    proof (rule for_each_invariant[OF loop1, where P = "naming_frame st"])
      show "naming_frame st st2" by (rule f2)
    next
      fix x s s'
      assume "naming_frame st s" "name_variable (assign_canonical_names k) v name1 score1 x s = Done s'"
      then show "naming_frame st s'"
        using Suc.IH
        by (auto simp: name_variable_def split: if_splits sum.splits tri.splits
              intro: naming_frame_trans)
    qed
    show ?thesis
    proof (rule for_each_invariant[OF loop2, where P = "naming_frame st"])
      show "naming_frame st st3" by (rule f3)
    next
      fix x s s'
      assume s: "naming_frame st s" and b: "name_reachable (assign_canonical_names k) v x s = Done s'"
      obtain name2 s1 where u: "unreachable_name s x = (name2, s1)" by (cases "unreachable_name s x")
      with b have "assign_canonical_names k x (Known name2) (- 10000) (Known v) s1 = Done s'"
        by (simp add: name_reachable_def)
      then have "naming_frame s1 s'" by (rule Suc.IH)
      then show "naming_frame st s'"
        using s unreachable_name_frame[OF u] by (blast intro: naming_frame_trans)
    qed
  qed
qed

lemma index_roots_root_list: "index_roots k st = Done st' \<Longrightarrow> root_list st' = root_list st"
  unfolding index_roots_def
proof (erule for_each_invariant[where P = "\<lambda>s. root_list s = root_list st"])
  show "root_list st = root_list st" by simp
next
  fix x s s'
  assume "root_list s = root_list st" "index_root k x s = Done s'"
  then show "root_list s' = root_list st"
    using find_contained_valdocs_frame assign_canonical_names_frame
    by (fastforce simp: index_root_def walk_frame_def naming_frame_def split: outcome.splits)
qed

lemma resolve_imported_from_root_list:
  "resolve_imported_from k v st = Done st' \<Longrightarrow> root_list st' = root_list st"
proof (induction k arbitrary: st)
  case 0
  then show ?case by simp
next
  case (Suc k)
  have "root_list (merge_into st v s) = root_list st" for s
    by (simp add: merge_into_def)
  then show ?case using Suc
    by (fastforce split: tri.splits sum.splits option.splits if_splits)
qed

lemma resolve_imports_root_list: "resolve_imports k st = Done st' \<Longrightarrow> root_list st' = root_list st"
  unfolding resolve_imports_def
  by (erule for_each_invariant[where P = "\<lambda>s. root_list s = root_list st"])
     (auto dest: resolve_imported_from_root_list)

lemma find_canonical_container_root_list:
  "find_canonical_container v st = Done st' \<Longrightarrow> root_list st' = root_list st"
  by (auto simp: find_canonical_container_def set_canonical_container_def Let_def
        split: if_splits tri.splits option.splits sum.splits)

lemma DocIndex_root_list:
  assumes "DocIndex k h root = Done st"
  shows "root_list st = sort_key (\<lambda>d. name_length (h ! d)) root"
proof -
  from assms obtain st1 st2 where
    1: "index_roots k (empty_index h root) = Done st1" and
    2: "resolve_imports k st1 = Done st2" and
    3: "for_each find_canonical_container (reachable_valdocs st2) st2 = Done st"
    by (auto simp: DocIndex_def split: if_splits outcome.splits)
  have "root_list st = root_list st2"
    by (rule for_each_invariant[OF 3, where P = "\<lambda>s. root_list s = root_list st2"])
       (auto dest: find_canonical_container_root_list)
  then show ?thesis
    using index_roots_root_list[OF 1] resolve_imports_root_list[OF 2]
    by (simp add: empty_index_def)
qed

subsection \<open>Lookup\<close>

lemma get_in_roots_not_found:
  "get_in_roots st rs name = Inr (None, None) \<longleftrightarrow> (\<forall>r \<in> set rs. passed_over st name r)"
  by (induction rs) (auto simp: passed_over_def split: tri.splits sum.splits)

lemma get_in_roots_first:
  assumes "\<forall>r \<in> set pre. passed_over st name r"
    and "canonical_name (obj st r) = Known rn" and "dominates rn name"
    and "get_from st None (Some r) (drop (length rn) name) = Inr found"
    and "found \<noteq> (None, None)"
  shows "get_in_roots st (pre @ r # post) name = Inr found"
  using assms
  by (induction pre) (cases found, auto simp: passed_over_def split: tri.splits sum.splits)

lemma assign_canonical_names_invariant:
  assumes upd: "\<And>st v name score parent st2 name1 score1.
      \<lbrakk>P st; Q v name score; \<not> already_named st v score;
       update_name (st\<lparr>reachable_valdocs := set_add (reachable_valdocs st) v\<rparr>) v name score parent
         = (st2, name1, score1)\<rbrakk>
      \<Longrightarrow> P st2 \<and> (\<forall>var r nm. var \<in> set (vardocs_reachable_from st2 v) \<longrightarrow> var_value var = Known r
                      \<longrightarrow> Q r (Known nm) (vardoc_score score1 var))"
    and reach: "\<And>s v name score r nm. \<lbrakk>P s; Q v name score; r \<in> set (valdocs_reachable_from s v)\<rbrakk>
      \<Longrightarrow> Q r (Known nm) (- 10000)"
    and unr: "\<And>s r name s1. \<lbrakk>P s; unreachable_name s r = (name, s1)\<rbrakk> \<Longrightarrow> P s1"
  shows "assign_canonical_names k v name score parent st = Done st' \<Longrightarrow> P st \<Longrightarrow> Q v name score
           \<Longrightarrow> P st'"
proof (induction k arbitrary: v name score parent st st')
  case 0
  then show ?case by simp
next
  case (Suc k)
  show ?case
  proof (cases "already_named st v score")
    case True
    then show ?thesis using Suc.prems by simp
  next
    case False
    obtain st2 name1 score1 where
      u: "update_name (st\<lparr>reachable_valdocs := set_add (reachable_valdocs st) v\<rparr>) v name score parent
              = (st2, name1, score1)"
      by (metis prod_cases3)
    from False Suc.prems(1) u obtain st3 where
      loop1: "for_each (name_variable (assign_canonical_names k) v name1 score1)
                (vardocs_reachable_from st2 v) st2 = Done st3" and
      loop2: "for_each (name_reachable (assign_canonical_names k) v)
                (valdocs_reachable_from st3 v) st3 = Done st'"
      by (auto split: outcome.splits)
    note step = upd[OF Suc.prems(2) Suc.prems(3) False u]
    have p3: "P st3"
    proof (rule for_each_invariant[OF loop1, where P = P])
      show "P st2" using step by simp
    next
      fix x s s'
      assume x: "x \<in> set (vardocs_reachable_from st2 v)" and s: "P s"
        and b: "name_variable (assign_canonical_names k) v name1 score1 x s = Done s'"
      show "P s'"
      proof (cases "var_value x")
        case (Known r)
        from b Known obtain nm where
          "assign_canonical_names k r (Known nm) (vardoc_score score1 x) (Known v) s = Done s'"
          by (auto simp: name_variable_def split: sum.splits tri.splits)
        moreover have "Q r (Known nm) (vardoc_score score1 x)"
          using step x Known by blast
        ultimately show ?thesis using Suc.IH s by blast
      next
        case PyNone
        then show ?thesis using b by (simp add: name_variable_def split: sum.splits)
      next
        case UNKNOWN
        then show ?thesis using b s by (simp add: name_variable_def)
      qed
    qed
    show ?thesis
    proof (rule for_each_invariant[OF loop2, where P = P])
      show "P st3" by (rule p3)
    next
      fix x s s'
      assume x: "x \<in> set (valdocs_reachable_from st3 v)" and s: "P s"
        and b: "name_reachable (assign_canonical_names k) v x s = Done s'"
      obtain name2 s1 where un: "unreachable_name s x = (name2, s1)"
        by (cases "unreachable_name s x")
      with b have r: "assign_canonical_names k x (Known name2) (- 10000) (Known v) s1 = Done s'"
        by (simp add: name_reachable_def)
      have "P s1" by (rule unr[OF s un])
      moreover have "Q x (Known name2) (- 10000)"
        by (rule reach[OF p3 Suc.prems(3) x])
      ultimately show "P s'" using Suc.IH[OF r] by blast
    qed
  qed
qed







lemma sys_maxint_nonneg: "0 \<le> sys_maxint"
  by (simp add: sys_maxint_def)

lemma vardoc_score_le: "vardoc_score score var \<le> score - 1"
  by (simp add: vardoc_score_def)

subsection \<open>Shapes\<close>

lemma same_shape_refl: "same_shape d d"
  by (simp add: same_shape_def)

lemma same_shape_set_canonical:
  "same_shape d d' \<Longrightarrow> same_shape d (d'\<lparr>canonical_name := x, canonical_container := y\<rparr>)"
  by (simp add: same_shape_def)

lemma same_shape_set_container:
  "same_shape d d' \<Longrightarrow> same_shape d (d'\<lparr>canonical_container := y\<rparr>)"
  by (simp add: same_shape_def)

lemma same_shape_vardocs_of: "same_shape d d' \<Longrightarrow> vardocs_of d' = vardocs_of d"
proof -
  assume "same_shape d d'"
  then have "vardocs_of d
     = vardocs_of (d'\<lparr>canonical_name := canonical_name d, canonical_container := canonical_container d\<rparr>)"
    by (simp add: same_shape_def)
  then show ?thesis by (simp add: vardocs_of_def)
qed

lemma same_shape_valdocs_of: "same_shape d d' \<Longrightarrow> valdocs_of d' = valdocs_of d"
proof -
  assume "same_shape d d'"
  then have "valdocs_of d
     = valdocs_of (d'\<lparr>canonical_name := canonical_name d, canonical_container := canonical_container d\<rparr>)"
    by (simp add: same_shape_def)
  then show ?thesis by (simp add: valdocs_of_def)
qed

lemma same_shape_imported_from: "same_shape d d' \<Longrightarrow> imported_from d' = imported_from d"
proof -
  assume "same_shape d d'"
  then have "imported_from d
     = imported_from (d'\<lparr>canonical_name := canonical_name d, canonical_container := canonical_container d\<rparr>)"
    by (simp add: same_shape_def)
  then show ?thesis by simp
qed

lemma shape_inv_obj: "shape_inv h st \<Longrightarrow> r < length h \<Longrightarrow> obj st r = heap st ! r"
  by (simp add: shape_inv_def obj_def)

lemma shape_inv_same: "shape_inv h st \<Longrightarrow> r < length h \<Longrightarrow> same_shape (h ! r) (obj st r)"
  by (simp add: shape_inv_def obj_def)

lemma shape_inv_vardocs:
  "shape_inv h st \<Longrightarrow> r < length h \<Longrightarrow> vardocs_reachable_from st r = vardocs_of (h ! r)"
  by (simp add: vardocs_reachable_from_def shape_inv_same same_shape_vardocs_of)

lemma shape_inv_valdocs:
  "shape_inv h st \<Longrightarrow> r < length h \<Longrightarrow> valdocs_reachable_from st r = valdocs_of (h ! r)"
  by (simp add: valdocs_reachable_from_def shape_inv_same same_shape_valdocs_of)

lemma wf_heap_var:
  "wf_heap h \<Longrightarrow> r < length h \<Longrightarrow> var \<in> set (vardocs_of (h ! r)) \<Longrightarrow> var_value var = Known r'
     \<Longrightarrow> r' < length h"
  by (fastforce simp: wf_heap_def)

lemma wf_heap_val:
  "wf_heap h \<Longrightarrow> r < length h \<Longrightarrow> r' \<in> set (valdocs_of (h ! r)) \<Longrightarrow> r' < length h"
  by (fastforce simp: wf_heap_def)

lemma shape_inv_set_canonical:
  assumes "shape_inv h st" and "v < length h"
  shows "shape_inv h (set_canonical st v name parent)"
proof -
  have c: "content st ! v = v" using assms by (simp add: shape_inv_def)
  show ?thesis
    using assms
    by (auto simp: shape_inv_def set_canonical_def obj_def c nth_list_update
          intro: same_shape_set_canonical)
qed

lemma shape_inv_fields:
  "shape_inv h st \<Longrightarrow> heap st' = heap st \<Longrightarrow> content st' = content st \<Longrightarrow> shape_inv h st'"
  by (simp add: shape_inv_def)

lemma ledger_inv_fields: "ledger_inv n st \<Longrightarrow> score_dict st' = score_dict st \<Longrightarrow> ledger_inv n st'"
  by (simp add: ledger_inv_def)

lemma naming_inv_fields:
  "naming_inv h st \<Longrightarrow> heap st' = heap st \<Longrightarrow> content st' = content st
     \<Longrightarrow> score_dict st' = score_dict st \<Longrightarrow> naming_inv h st'"
  unfolding naming_inv_def by (blast intro: shape_inv_fields ledger_inv_fields)

lemma update_name_cases:
  assumes "update_name st v name score parent = (st2, name1, score1)"
    and "\<not> already_named st v score"
  shows "(score_dict st v = None \<and> canonical_name (obj st v) \<noteq> UNKNOWN
            \<and> st2 = st\<lparr>score_dict := (score_dict st)(v \<mapsto> sys_maxint)\<rparr>
            \<and> name1 = canonical_name (obj st v) \<and> score1 = 0)
       \<or> (\<not> (score_dict st v = None \<and> canonical_name (obj st v) \<noteq> UNKNOWN)
            \<and> st2 = (set_canonical st v name parent)\<lparr>score_dict := (score_dict st)(v \<mapsto> score)\<rparr>
            \<and> name1 = name \<and> score1 = score)"
  using assms
  by (auto simp: update_name_def already_named_def split: if_splits option.splits)

lemma already_named_fields:
  "score_dict st' = score_dict st \<Longrightarrow> already_named st' v score = already_named st v score"
  by (simp add: already_named_def)

lemma update_name_naming_inv:
  assumes inv: "naming_inv h st" and v: "v < length h" and sc: "score \<le> sys_maxint"
    and na: "\<not> already_named st v score"
    and u: "update_name (st\<lparr>reachable_valdocs := set_add (reachable_valdocs st) v\<rparr>) v name score parent
              = (st2, name1, score1)"
  shows "naming_inv h st2 \<and> score1 \<le> sys_maxint"
proof -
  let ?st1 = "st\<lparr>reachable_valdocs := set_add (reachable_valdocs st) v\<rparr>"
  have inv1: "naming_inv h ?st1" using inv by (rule naming_inv_fields) simp_all
  have na1: "\<not> already_named ?st1 v score" using na by (simp add: already_named_def)
  from update_name_cases[OF u na1] show ?thesis
  proof
    assume a: "score_dict ?st1 v = None \<and> canonical_name (obj ?st1 v) \<noteq> UNKNOWN
            \<and> st2 = ?st1\<lparr>score_dict := (score_dict ?st1)(v \<mapsto> sys_maxint)\<rparr>
            \<and> name1 = canonical_name (obj ?st1 v) \<and> score1 = 0"
    then have "shape_inv h st2" using inv1 by (auto simp: naming_inv_def intro: shape_inv_fields)
    moreover have "ledger_inv (length h) st2"
      using a inv1 v by (auto simp: naming_inv_def ledger_inv_def)
    ultimately show ?thesis using a sys_maxint_nonneg by (simp add: naming_inv_def)
  next
    assume a: "\<not> (score_dict ?st1 v = None \<and> canonical_name (obj ?st1 v) \<noteq> UNKNOWN)
            \<and> st2 = (set_canonical ?st1 v name parent)\<lparr>score_dict := (score_dict ?st1)(v \<mapsto> score)\<rparr>
            \<and> name1 = name \<and> score1 = score"
    have "shape_inv h (set_canonical ?st1 v name parent)"
      using inv1 v by (simp add: naming_inv_def shape_inv_set_canonical)
    then have "shape_inv h st2" using a by (auto simp: set_canonical_def intro: shape_inv_fields)
    moreover have "ledger_inv (length h) st2"
      using a inv1 v sc by (auto simp: naming_inv_def ledger_inv_def set_canonical_def)
    ultimately show ?thesis using a sc by (simp add: naming_inv_def)
  qed
qed

lemma unreachable_name_fields:
  "unreachable_name s r = (name, s1) \<Longrightarrow>
     heap s1 = heap s \<and> content s1 = content s \<and> score_dict s1 = score_dict s
     \<and> reachable_valdocs s1 = reachable_valdocs s"
  by (auto simp: unreachable_name_def Let_def)

lemma assign_canonical_names_naming_inv:
  assumes wf: "wf_heap h"
  shows "assign_canonical_names k v name score parent st = Done st' \<Longrightarrow> naming_inv h st
     \<Longrightarrow> v < length h \<and> score \<le> sys_maxint \<Longrightarrow> naming_inv h st'"
proof (erule assign_canonical_names_invariant[where P = "naming_inv h"
        and Q = "\<lambda>v name score. v < length h \<and> score \<le> sys_maxint", rotated 3])
  fix st v name score parent st2 name1 score1
  assume inv: "naming_inv h st" and q: "v < length h \<and> score \<le> sys_maxint"
    and na: "\<not> already_named st v score"
    and u: "update_name (st\<lparr>reachable_valdocs := set_add (reachable_valdocs st) v\<rparr>) v name score parent
              = (st2, name1, score1)"
  have i2: "naming_inv h st2 \<and> score1 \<le> sys_maxint"
    using update_name_naming_inv[OF inv _ _ na u] q by simp
  have "\<And>var r. var \<in> set (vardocs_reachable_from st2 v) \<Longrightarrow> var_value var = Known r
          \<Longrightarrow> r < length h \<and> vardoc_score score1 var \<le> sys_maxint"
  proof -
    fix var r assume a: "var \<in> set (vardocs_reachable_from st2 v)" "var_value var = Known r"
    have "vardocs_reachable_from st2 v = vardocs_of (h ! v)"
      using i2 q by (simp add: naming_inv_def shape_inv_vardocs)
    then have "r < length h" using wf_heap_var[OF wf, of v var r] q a by simp
    moreover have "vardoc_score score1 var \<le> sys_maxint"
      using vardoc_score_le[of score1 var] i2 by simp
    ultimately show "r < length h \<and> vardoc_score score1 var \<le> sys_maxint" by simp
  qed
  then show "naming_inv h st2 \<and> (\<forall>var r nm. var \<in> set (vardocs_reachable_from st2 v)
       \<longrightarrow> var_value var = Known r \<longrightarrow> r < length h \<and> vardoc_score score1 var \<le> sys_maxint)"
    using i2 by blast
next
  fix s v name score r and nm :: dotted_name
  assume inv: "naming_inv h s" and q: "v < length h \<and> score \<le> sys_maxint"
    and r: "r \<in> set (valdocs_reachable_from s v)"
  have "valdocs_reachable_from s v = valdocs_of (h ! v)"
    using inv q by (simp add: naming_inv_def shape_inv_valdocs)
  then have "r < length h" using wf_heap_val[OF wf, of v r] q r by simp
  then show "r < length h \<and> - 10000 \<le> sys_maxint" using sys_maxint_nonneg by simp
next
  fix s r name s1
  assume "naming_inv h s" "unreachable_name s r = (name, s1)"
  then show "naming_inv h s1"
    using unreachable_name_fields by (blast intro: naming_inv_fields)
qed




subsection \<open>More fuel changes nothing once a call has returned or raised\<close>



subsection \<open>The order on score dictionaries is well-founded\<close>









subsection \<open>The containment walk\<close>

lemma find_contained_valdocs_invariant:
  assumes add: "\<And>st v. \<lbrakk>P st; Q v; v \<notin> set (contained_valdocs st)\<rbrakk> \<Longrightarrow>
        P (st\<lparr>contained_valdocs := set_add (contained_valdocs st) v\<rparr>)
        \<and> (\<forall>var \<in> set (case v of Some r \<Rightarrow> vardocs_reachable_from st r | None \<Rightarrow> []).
              var_value var \<noteq> UNKNOWN \<longrightarrow> is_imported var \<noteq> Known True
                \<longrightarrow> Q (tri_to_option (var_value var)))"
    and recd: "\<And>s var. P s \<Longrightarrow> P (s\<lparr>reachable_vardocs := set_add (reachable_vardocs s) var\<rparr>)"
  shows "find_contained_valdocs k v st = Done st' \<Longrightarrow> P st \<Longrightarrow> Q v \<Longrightarrow> P st'"
proof (induction k arbitrary: v st st')
  case 0
  then show ?case by simp
next
  case (Suc k)
  show ?case
  proof (cases "v \<in> set (contained_valdocs st)")
    case True
    then show ?thesis using Suc.prems by simp
  next
    case False
    let ?st1 = "st\<lparr>contained_valdocs := set_add (contained_valdocs st) v\<rparr>"
    let ?xs = "case v of Some r \<Rightarrow> vardocs_reachable_from st r | None \<Rightarrow> []"
    from False Suc.prems(1)
    have run: "for_each (contain_variable (find_contained_valdocs k)) ?xs ?st1 = Done st'"
      by simp
    note step = add[OF Suc.prems(2) Suc.prems(3) False]
    show ?thesis
    proof (rule for_each_invariant[OF run, where P = P])
      show "P ?st1" using step by simp
    next
      fix x s s'
      assume x: "x \<in> set ?xs" and s: "P s"
        and b: "contain_variable (find_contained_valdocs k) x s = Done s'"
      let ?s1 = "s\<lparr>reachable_vardocs := set_add (reachable_vardocs s) x\<rparr>"
      have s1: "P ?s1" by (rule recd[OF s])
      show "P s'"
      proof (cases "var_value x \<noteq> UNKNOWN \<and> is_imported x \<noteq> Known True")
        case True
        then have "find_contained_valdocs k (tri_to_option (var_value x)) ?s1 = Done s'"
          using b by (simp add: contain_variable_def Let_def)
        moreover have "Q (tri_to_option (var_value x))" using step x True by blast
        ultimately show ?thesis using Suc.IH s1 by blast
      next
        case False
        then have "s' = ?s1" using b by (auto simp: contain_variable_def Let_def split: if_splits)
        then show ?thesis using s1 by simp
      qed
    qed
  qed
qed



text \<open>The walk only adds to the two sets it fills.\<close>

lemma find_contained_valdocs_grows:
  "find_contained_valdocs k v st = Done st' \<Longrightarrow>
     set (contained_valdocs st) \<subseteq> set (contained_valdocs st')"
proof -
  assume run: "find_contained_valdocs k v st = Done st'"
  show ?thesis
    by (rule find_contained_valdocs_invariant[where
          P = "\<lambda>s. set (contained_valdocs st) \<subseteq> set (contained_valdocs s)" and Q = "\<lambda>v. True",
          OF _ _ run])
       (auto simp: set_add_def)
qed

lemma wf_heap_target:
  assumes wf: "wf_heap h" and r: "r < length h" and var: "var \<in> set (vardocs_of (h ! r))"
  shows "tri_to_option (var_value var) \<in> candidates (length h)"
proof (cases "var_value var")
  case (Known r')
  then have "r' < length h" using wf_heap_var[OF wf r var] by simp
  then show ?thesis using Known by (simp add: candidates_def tri_to_option_def)
qed (simp_all add: candidates_def tri_to_option_def)

lemma walk_targets:
  assumes wf: "wf_heap h" and s: "shape_inv h st" and v: "v \<in> candidates (length h)"
    and var: "var \<in> set (case v of Some r \<Rightarrow> vardocs_reachable_from st r | None \<Rightarrow> [])"
  shows "tri_to_option (var_value var) \<in> candidates (length h)"
proof (cases v)
  case None
  then show ?thesis using var by simp
next
  case (Some r)
  then have r: "r < length h" using v by (auto simp: candidates_def)
  then have "var \<in> set (vardocs_of (h ! r))" using var Some s by (simp add: shape_inv_vardocs)
  then show ?thesis by (rule wf_heap_target[OF wf r])
qed

lemma find_contained_valdocs_walk_inv:
  assumes wf: "wf_heap h"
  shows "find_contained_valdocs k v st = Done st' \<Longrightarrow> walk_inv h st \<Longrightarrow> v \<in> candidates (length h)
     \<Longrightarrow> walk_inv h st'"
proof (erule find_contained_valdocs_invariant[where P = "walk_inv h"
         and Q = "\<lambda>v. v \<in> candidates (length h)", rotated 2])
  fix st v
  assume i: "walk_inv h st" and v: "v \<in> candidates (length h)"
  have "walk_inv h (st\<lparr>contained_valdocs := set_add (contained_valdocs st) v\<rparr>)"
    using i v by (auto simp: walk_inv_def set_add_def intro: shape_inv_fields)
  moreover have "\<forall>var \<in> set (case v of Some r \<Rightarrow> vardocs_reachable_from st r | None \<Rightarrow> []).
     tri_to_option (var_value var) \<in> candidates (length h)"
  proof
    fix var assume "var \<in> set (case v of Some r \<Rightarrow> vardocs_reachable_from st r | None \<Rightarrow> [])"
    moreover have "shape_inv h st" using i by (simp add: walk_inv_def)
    ultimately show "tri_to_option (var_value var) \<in> candidates (length h)"
      using walk_targets[OF wf _ v] by blast
  qed
  ultimately show "walk_inv h (st\<lparr>contained_valdocs := set_add (contained_valdocs st) v\<rparr>)
        \<and> (\<forall>var \<in> set (case v of Some r \<Rightarrow> vardocs_reachable_from st r | None \<Rightarrow> []).
              var_value var \<noteq> UNKNOWN \<longrightarrow> is_imported var \<noteq> Known True
                \<longrightarrow> tri_to_option (var_value var) \<in> candidates (length h))"
    by blast
next
  fix s var
  assume "walk_inv h s"
  then show "walk_inv h (s\<lparr>reachable_vardocs := set_add (reachable_vardocs s) var\<rparr>)"
    by (auto simp: walk_inv_def intro: shape_inv_fields)
qed


subsection \<open>Invariants of the naming pass, over the basic one\<close>

lemma naming_invariant:
  assumes wf: "wf_heap h"
    and names: "\<And>nm. N (Known nm)"
    and upd: "\<And>st v name score parent st2 name1 score1.
      \<lbrakk>naming_inv h st; P st; v < length h; score \<le> sys_maxint; N name;
       \<not> already_named st v score;
       update_name (st\<lparr>reachable_valdocs := set_add (reachable_valdocs st) v\<rparr>) v name score parent
         = (st2, name1, score1); naming_inv h st2\<rbrakk>
      \<Longrightarrow> P st2"
    and unr: "\<And>s r name s1. \<lbrakk>naming_inv h s; P s; unreachable_name s r = (name, s1)\<rbrakk> \<Longrightarrow> P s1"
    and run: "assign_canonical_names k v name score parent st = Done st'"
    and st: "naming_inv h st" "P st" and v: "v < length h" and sc: "score \<le> sys_maxint"
    and nm: "N name"
  shows "P st'"
proof -
  have "naming_inv h st' \<and> P st'"
  proof (rule assign_canonical_names_invariant[where P = "\<lambda>s. naming_inv h s \<and> P s"
        and Q = "\<lambda>v name score. v < length h \<and> score \<le> sys_maxint \<and> N name", OF _ _ _ run])
    show "naming_inv h st \<and> P st" using st by simp
    show "v < length h \<and> score \<le> sys_maxint \<and> N name" using v sc nm by simp
  next
    fix st v name score parent st2 name1 score1
    assume p: "naming_inv h st \<and> P st" and q: "v < length h \<and> score \<le> sys_maxint \<and> N name"
      and na: "\<not> already_named st v score"
      and u: "update_name (st\<lparr>reachable_valdocs := set_add (reachable_valdocs st) v\<rparr>) v name score parent
              = (st2, name1, score1)"
    have i2: "naming_inv h st2 \<and> score1 \<le> sys_maxint"
      using update_name_naming_inv[of h st v score name parent st2 name1 score1, OF _ _ _ na u] p q
      by blast
    have p2: "P st2"
      using upd[of st v score name parent st2 name1 score1, OF _ _ _ _ _ na u] p q i2 by blast
    have "r < length h \<and> vardoc_score score1 var \<le> sys_maxint \<and> N (Known nm)"
      if a: "var \<in> set (vardocs_reachable_from st2 v)" "var_value var = Known r" for var r nm
    proof -
      have "vardocs_reachable_from st2 v = vardocs_of (h ! v)"
        using i2 q by (simp add: naming_inv_def shape_inv_vardocs)
      then have "r < length h" using wf_heap_var[OF wf, of v var r] q a by simp
      then show ?thesis using vardoc_score_le[of score1 var] i2 names by simp
    qed
    then show "(naming_inv h st2 \<and> P st2) \<and> (\<forall>var r nm. var \<in> set (vardocs_reachable_from st2 v)
        \<longrightarrow> var_value var = Known r
        \<longrightarrow> r < length h \<and> vardoc_score score1 var \<le> sys_maxint \<and> N (Known nm))"
      using i2 p2 by blast
  next
    fix s v name score r and nm :: dotted_name
    assume p: "naming_inv h s \<and> P s" and q: "v < length h \<and> score \<le> sys_maxint \<and> N name"
      and r: "r \<in> set (valdocs_reachable_from s v)"
    have "valdocs_reachable_from s v = valdocs_of (h ! v)"
      using p q by (simp add: naming_inv_def shape_inv_valdocs)
    then have "r < length h" using wf_heap_val[OF wf, of v r] q r by simp
    then show "r < length h \<and> - 10000 \<le> sys_maxint \<and> N (Known nm)"
      using sys_maxint_nonneg names by simp
  next
    fix s r name s1
    assume p: "naming_inv h s \<and> P s" and un: "unreachable_name s r = (name, s1)"
    have "naming_inv h s1" using p unreachable_name_fields[OF un] by (blast intro: naming_inv_fields)
    then show "naming_inv h s1 \<and> P s1" using unr[OF _ _ un] p by simp
  qed
  then show ?thesis by simp
qed

lemma kept_inv_fields:
  "kept_inv h s \<Longrightarrow> heap s' = heap s \<Longrightarrow> score_dict s' = score_dict s \<Longrightarrow> kept_inv h s'"
  by (simp add: kept_inv_def)

lemma heap_set_canonical:
  assumes "shape_inv h st" and "v < length h" and "r < length h"
  shows "heap (set_canonical st v name parent) ! r
     = (if r = v then (heap st ! v)\<lparr>canonical_name := name, canonical_container := parent\<rparr>
        else heap st ! r)"
proof -
  have c: "content st ! v = v" using assms by (simp add: shape_inv_def)
  have l: "length (heap st) = length h" using assms by (simp add: shape_inv_def)
  show ?thesis using assms by (simp add: set_canonical_def obj_def c l)
qed

lemma update_name_kept_inv:
  assumes inv: "naming_inv h st" and k: "kept_inv h st" and v: "v < length h"
    and sc: "score \<le> sys_maxint" and na: "\<not> already_named st v score"
    and u: "update_name (st\<lparr>reachable_valdocs := set_add (reachable_valdocs st) v\<rparr>) v name score parent
              = (st2, name1, score1)"
  shows "kept_inv h st2"
proof -
  let ?st1 = "st\<lparr>reachable_valdocs := set_add (reachable_valdocs st) v\<rparr>"
  have na1: "\<not> already_named ?st1 v score" using na by (simp add: already_named_def)
  have sh1: "shape_inv h ?st1" using inv by (auto simp: naming_inv_def intro: shape_inv_fields)
  have o1: "obj ?st1 v = heap st ! v" using shape_inv_obj[OF sh1 v] by simp
  from update_name_cases[OF u na1] show ?thesis
  proof
    assume a: "score_dict ?st1 v = None \<and> canonical_name (obj ?st1 v) \<noteq> UNKNOWN
            \<and> st2 = ?st1\<lparr>score_dict := (score_dict ?st1)(v \<mapsto> sys_maxint)\<rparr>
            \<and> name1 = canonical_name (obj ?st1 v) \<and> score1 = 0"
    then show ?thesis using k by (auto simp: kept_inv_def)
  next
    assume a: "\<not> (score_dict ?st1 v = None \<and> canonical_name (obj ?st1 v) \<noteq> UNKNOWN)
            \<and> st2 = (set_canonical ?st1 v name parent)\<lparr>score_dict := (score_dict ?st1)(v \<mapsto> score)\<rparr>
            \<and> name1 = name \<and> score1 = score"
    have h2: "heap st2 ! r = (if r = v
                then (heap st ! v)\<lparr>canonical_name := name, canonical_container := parent\<rparr>
                else heap st ! r)" if "r < length h" for r
      using a heap_set_canonical[OF sh1 v that, of name parent] by simp
    have d2: "score_dict st2 = (score_dict st)(v \<mapsto> score)" using a by (simp add: set_canonical_def)
    have fresh: "canonical_name (h ! v) = UNKNOWN"
    proof (cases "score_dict st v")
      case None
      then have "canonical_name (heap st ! v) = UNKNOWN" using a o1 by simp
      then show ?thesis using k v None by (simp add: kept_inv_def)
    next
      case (Some old)
      then have "old < score" using na by (simp add: already_named_def)
      then have "old \<noteq> sys_maxint" using sc by simp
      then show ?thesis using k v Some by (auto simp: kept_inv_def)
    qed
    show ?thesis
      unfolding kept_inv_def
    proof (intro allI impI)
      fix r assume r: "r < length h"
      show "(score_dict st2 r = None \<longrightarrow> canonical_name (heap st2 ! r) = canonical_name (h ! r))
        \<and> (canonical_name (h ! r) \<noteq> UNKNOWN \<longrightarrow>
             canonical_name (heap st2 ! r) = canonical_name (h ! r)
             \<and> (score_dict st2 r = None \<or> score_dict st2 r = Some sys_maxint))"
      proof (cases "r = v")
        case True
        then show ?thesis using fresh d2 by simp
      next
        case False
        then show ?thesis using k r h2[OF r] d2 by (simp add: kept_inv_def)
      qed
    qed
  qed
qed

lemma assign_canonical_names_kept_inv:
  assumes wf: "wf_heap h"
    and run: "assign_canonical_names k v name score parent st = Done st'"
    and st: "naming_inv h st" "kept_inv h st" and v: "v < length h" and sc: "score \<le> sys_maxint"
  shows "kept_inv h st'"
proof (rule naming_invariant[where P = "kept_inv h" and N = "\<lambda>n. True", OF wf _ _ _ run st v sc])
  fix st v name score parent st2 name1 score1
  assume "naming_inv h st" "kept_inv h st" "v < length h" "score \<le> sys_maxint"
    "\<not> already_named st v score"
    "update_name (st\<lparr>reachable_valdocs := set_add (reachable_valdocs st) v\<rparr>) v name score parent
         = (st2, name1, score1)"
  then show "kept_inv h st2" by (rule update_name_kept_inv)
next
  fix s r name s1
  assume "kept_inv h s" "unreachable_name s r = (name, s1)"
  then show "kept_inv h s1" using unreachable_name_fields by (blast intro: kept_inv_fields)
qed simp_all




subsection \<open>The loop over the roots\<close>

lemma roots_inv_walk_inv: "roots_inv h s \<Longrightarrow> walk_inv h s"
  by (simp add: roots_inv_def walk_inv_def naming_inv_def)

lemma roots_inv_empty_index: "roots_inv h (empty_index h root)"
  by (simp add: roots_inv_def naming_inv_def shape_inv_def ledger_inv_def kept_inv_def
        empty_index_def same_shape_refl)

lemma index_root_roots_inv:
  assumes wf: "wf_heap h" and run: "index_root k v st = Done st'" and inv: "roots_inv h st"
    and v: "v < length h"
  shows "roots_inv h st'"
proof -
  from run obtain st1 where
    w: "find_contained_valdocs k (Some v) st = Done st1" and
    a: "assign_canonical_names k v (canonical_name (obj st1 v)) 0 PyNone st1 = Done st'"
    by (auto simp: index_root_def split: outcome.splits)
  have c: "Some v \<in> candidates (length h)" using v by (simp add: candidates_def)
  have f: "walk_frame st st1" by (rule find_contained_valdocs_frame[OF w])
  have w1: "walk_inv h st1"
    by (rule find_contained_valdocs_walk_inv[OF wf w roots_inv_walk_inv[OF inv] c])
  have n1: "naming_inv h st1"
    using inv f by (auto simp: roots_inv_def walk_frame_def intro: naming_inv_fields)
  have k1: "kept_inv h st1"
    using inv f by (auto simp: roots_inv_def walk_frame_def intro: kept_inv_fields)
  have q: "v < length h \<and> 0 \<le> sys_maxint" using v sys_maxint_nonneg by simp
  have "naming_inv h st'" by (rule assign_canonical_names_naming_inv[OF wf a n1 q])
  moreover have "kept_inv h st'"
    using assign_canonical_names_kept_inv[OF wf a n1 k1] q by simp
  moreover have "contained_valdocs st' = contained_valdocs st1"
    using assign_canonical_names_frame[OF a] by (simp add: naming_frame_def)
  ultimately show ?thesis using w1 by (simp add: roots_inv_def walk_inv_def)
qed



lemma index_roots_roots_inv:
  assumes wf: "wf_heap h" and run: "index_roots k st = Done st'" and inv: "roots_inv h st"
    and roots: "set (root_list st) \<subseteq> {..<length h}"
  shows "roots_inv h st'"
  using run unfolding index_roots_def
proof (rule for_each_invariant[where P = "roots_inv h"])
  show "roots_inv h st" by (rule inv)
next
  fix x s s'
  assume "x \<in> set (root_list st)" "roots_inv h s" "index_root k x s = Done s'"
  then show "roots_inv h s'" using index_root_roots_inv[OF wf] roots by blast
qed



lemma root_list_empty_index: "set (root_list (empty_index h root)) = set root"
  by (simp add: empty_index_def)

subsection \<open>The merge step and the containers\<close>

lemma for_each_unchanged:
  "(\<And>x. x \<in> set xs \<Longrightarrow> body x st = Done st) \<Longrightarrow> for_each body xs st = Done st"
  by (induction xs) simp_all



lemma resolve_imported_from_untouched:
  assumes "\<not> is_name (imported_from (obj st v))"
  shows "resolve_imported_from k x s = Done s' \<Longrightarrow> untouched st v s \<Longrightarrow> untouched st v s'"
proof (induction k arbitrary: s)
  case 0
  then show ?case by simp
next
  case (Suc k)
  have same: "obj s v = obj st v" using Suc.prems(2) by (simp add: untouched_def obj_def)
  show ?case
  proof (cases "imported_from (obj s x)")
    case (Known src_name)
    then have xv: "x \<noteq> v" using assms same by (auto simp: is_name_def)
    show ?thesis
    proof (cases "get_valdoc s src_name")
      case (Inl e)
      then show ?thesis using Suc.prems Known by simp
    next
      case (Inr found)
      show ?thesis
      proof (cases found)
        case None
        then show ?thesis using Suc.prems Known Inr by simp
      next
        case (Some src_doc)
        show ?thesis
        proof (cases "src_doc = x")
          case True
          then show ?thesis using Suc.prems Known Inr Some by simp
        next
          case False
          then have r: "resolve_imported_from k x (merge_into s x src_doc) = Done s'"
            using Suc.prems(1) Known Inr Some by simp
          have "untouched st v (merge_into s x src_doc)"
            using Suc.prems(2) xv by (simp add: untouched_def merge_into_def)
          then show ?thesis using Suc.IH[OF r] by simp
        qed
      qed
    qed
  next
    case PyNone
    then show ?thesis using Suc.prems by simp
  next
    case UNKNOWN
    then show ?thesis using Suc.prems by simp
  qed
qed

lemma resolve_imports_untouched:
  assumes "\<not> is_name (imported_from (obj st v))" and "resolve_imports k st = Done st'"
  shows "untouched st v st'"
  using assms(2) unfolding resolve_imports_def
proof (rule for_each_invariant[where P = "untouched st v"])
  show "untouched st v st" by (simp add: untouched_def)
next
  fix x s s' assume "untouched st v s" "resolve_imported_from k x s = Done s'"
  then show "untouched st v s'" using resolve_imported_from_untouched[OF assms(1)] by blast
qed

lemma resolve_imports_nothing:
  assumes "\<forall>r \<in> set (reachable_valdocs st). \<not> is_name (imported_from (obj st r))"
  shows "resolve_imports (Suc k) st = Done st"
  unfolding resolve_imports_def
proof (rule for_each_unchanged)
  fix x assume "x \<in> set (reachable_valdocs st)"
  then have "\<not> is_name (imported_from (obj st x))" using assms by simp
  then show "resolve_imported_from (Suc k) x st = Done st"
    by (cases "imported_from (obj st x)") (simp_all add: is_name_def)
qed

lemma names_as_refl: "names_as st st"
  by (simp add: names_as_def)

lemma names_as_trans: "names_as a b \<Longrightarrow> names_as b c \<Longrightarrow> names_as a c"
  by (simp add: names_as_def)

lemma set_canonical_container_names_as: "names_as st (set_canonical_container st v c)"
proof -
  have "canonical_name (((heap st)[content st ! v := (obj st v)\<lparr>canonical_container := c\<rparr>]) ! i)
      = canonical_name (heap st ! i)" for i
    by (cases "content st ! v < length (heap st)")
       (auto simp: nth_list_update obj_def list_update_beyond)
  then show ?thesis by (simp add: names_as_def set_canonical_container_def)
qed

lemma find_canonical_container_names_as:
  "find_canonical_container v st = Done st' \<Longrightarrow> names_as st st'"
  by (auto simp: find_canonical_container_def Let_def names_as_refl
        set_canonical_container_names_as
        split: if_splits tri.splits option.splits sum.splits
        intro: names_as_trans[OF set_canonical_container_names_as set_canonical_container_names_as])

lemma containers_names_as:
  assumes "for_each find_canonical_container xs st = Done st'"
  shows "names_as st st'"
  using assms
proof (rule for_each_invariant[where P = "names_as st"])
  show "names_as st st" by (rule names_as_refl)
next
  fix x s s' assume "names_as st s" "find_canonical_container x s = Done s'"
  then show "names_as st s'" using find_canonical_container_names_as names_as_trans by blast
qed

lemma names_as_obj: "names_as st s \<Longrightarrow> canonical_name (obj s v) = canonical_name (obj st v)"
  by (simp add: names_as_def obj_def)











text \<open>
  Claim C4, at the failing input.  The constructor returns an index in which the value
  of \<open>B\<close> is in \<open>contained_valdocs\<close> and not in \<open>reachable_valdocs\<close>: the merge
  step took it out of the reachable set, where its import source is, and left it in
  the contained set, where its import source is not.
\<close>

theorem contained_not_reachable_after_merge:
  "is_Done (DocIndex 4 example_import_merge [0])
   \<and> contained_valdocs (the_Done (DocIndex 4 example_import_merge [0])) = [Some 0, Some 2]
   \<and> reachable_valdocs (the_Done (DocIndex 4 example_import_merge [0])) = [0, 1]
   \<and> \<not> set (contained_valdocs (the_Done (DocIndex 4 example_import_merge [0])))
         \<subseteq> Some ` set (reachable_valdocs (the_Done (DocIndex 4 example_import_merge [0])))
   \<and> set (contained_valdocs (the_Done (index_roots 4 (empty_index example_import_merge [0]))))
         \<subseteq> Some ` set (reachable_valdocs (the_Done (index_roots 4 (empty_index example_import_merge [0]))))"
  by code_simp





lemma for_each_establishes:
  assumes run: "for_each body xs st = Done st'" and i: "I st"
    and est: "\<And>x s s'. x \<in> set xs \<Longrightarrow> I s \<Longrightarrow> body x s = Done s' \<Longrightarrow> I s' \<and> E x s'"
    and keep: "\<And>x y s s'. x \<in> set xs \<Longrightarrow> I s \<Longrightarrow> E y s \<Longrightarrow> body x s = Done s' \<Longrightarrow> E y s'"
  shows "I st' \<and> (\<forall>x \<in> set xs. E x st')"
  using run i est keep
proof (induction xs arbitrary: st)
  case Nil
  from Nil.prems(1,2) show ?case by simp
next
  case (Cons x xs)
  from Cons.prems(1) obtain s1 where s1: "body x st = Done s1" and rest: "for_each body xs s1 = Done st'"
    by (auto split: outcome.splits)
  have x: "x \<in> set (x # xs)" by simp
  have a: "I s1 \<and> E x s1" by (rule Cons.prems(3)[OF x Cons.prems(2) s1])
  have est': "I s' \<and> E y s'" if "y \<in> set xs" "I s" "body y s = Done s'" for y s s'
  proof -
    have "y \<in> set (x # xs)" using that(1) by simp
    then show ?thesis using that(2,3) by (rule Cons.prems(3))
  qed
  have keep': "E z s'" if "y \<in> set xs" "I s" "E z s" "body y s = Done s'" for y z s s'
  proof -
    have "y \<in> set (x # xs)" using that(1) by simp
    then show ?thesis using that(2,3,4) by (rule Cons.prems(4))
  qed
  have ih: "I st' \<and> (\<forall>y \<in> set xs. E y st')"
    by (rule Cons.IH[OF rest conjunct1[OF a] est' keep'])
  have "I st' \<and> E x st'"
  proof (rule for_each_invariant[OF rest, where P = "\<lambda>s. I s \<and> E x s"])
    show "I s1 \<and> E x s1" by (rule a)
  next
    fix y s s' assume y: "y \<in> set xs" and s: "I s \<and> E x s" and b: "body y s = Done s'"
    have "I s'" using est'[OF y conjunct1[OF s] b] by simp
    moreover have "E x s'" by (rule keep'[OF y conjunct1[OF s] conjunct2[OF s] b])
    ultimately show "I s' \<and> E x s'" by simp
  qed
  then show ?case using ih by simp
qed

lemma find_contained_valdocs_records:
  "find_contained_valdocs k v st = Done st' \<Longrightarrow>
     set (reachable_vardocs st) \<subseteq> set (reachable_vardocs st')"
proof -
  assume run: "find_contained_valdocs k v st = Done st'"
  show ?thesis
  proof (rule find_contained_valdocs_invariant[where
          P = "\<lambda>s. set (reachable_vardocs st) \<subseteq> set (reachable_vardocs s)" and Q = "\<lambda>v. True",
          OF _ _ run])
    fix s var assume "set (reachable_vardocs st) \<subseteq> set (reachable_vardocs s)"
    then show "set (reachable_vardocs st)
       \<subseteq> set (reachable_vardocs (s\<lparr>reachable_vardocs := set_add (reachable_vardocs s) var\<rparr>))"
      by (auto simp: set_add_def)
  qed simp_all
qed

lemma bindings_of_frame: "walk_frame st s \<Longrightarrow> bindings_of s c = bindings_of st c"
  by (simp add: walk_frame_def bindings_of_def vardocs_reachable_from_def obj_def split: option.splits)

lemma finished_grows:
  assumes "finished s c" and "bindings_of s' c = bindings_of s c"
    and "set (reachable_vardocs s) \<subseteq> set (reachable_vardocs s')"
    and "set (contained_valdocs s) \<subseteq> set (contained_valdocs s')"
  shows "finished s' c"
  unfolding finished_def
proof
  fix var assume "var \<in> set (bindings_of s' c)"
  then have "var \<in> set (bindings_of s c)" using assms(2) by simp
  then have "var \<in> set (reachable_vardocs s)
      \<and> (followed var \<longrightarrow> target var \<in> set (contained_valdocs s))"
    using assms(1) by (simp add: finished_def)
  then show "var \<in> set (reachable_vardocs s')
      \<and> (followed var \<longrightarrow> target var \<in> set (contained_valdocs s'))"
    using assms(3,4) by blast
qed

text \<open>One step of the loop over the variables.\<close>

lemma contain_variable_cases:
  assumes "contain_variable (find_contained_valdocs k) var s = Done s'"
  shows "(\<not> followed var \<and> s' = s\<lparr>reachable_vardocs := set_add (reachable_vardocs s) var\<rparr>)
       \<or> (followed var \<and> find_contained_valdocs k (target var)
             (s\<lparr>reachable_vardocs := set_add (reachable_vardocs s) var\<rparr>) = Done s')"
  using assms by (auto simp: contain_variable_def Let_def followed_def target_def split: if_splits)

lemma contain_variable_frame:
  assumes "contain_variable (find_contained_valdocs k) var s = Done s'"
  shows "walk_frame s s' \<and> set (reachable_vardocs s) \<subseteq> set (reachable_vardocs s')
     \<and> set (contained_valdocs s) \<subseteq> set (contained_valdocs s') \<and> var \<in> set (reachable_vardocs s')"
proof -
  let ?s1 = "s\<lparr>reachable_vardocs := set_add (reachable_vardocs s) var\<rparr>"
  have f1: "walk_frame s ?s1" by (simp add: walk_frame_def)
  have r1: "set (reachable_vardocs ?s1) = insert var (set (reachable_vardocs s))"
    by (auto simp: set_add_def)
  from contain_variable_cases[OF assms] show ?thesis
  proof
    assume "\<not> followed var \<and> s' = ?s1"
    then show ?thesis using f1 r1 by auto
  next
    assume a: "followed var \<and> find_contained_valdocs k (target var) ?s1 = Done s'"
    then have "walk_frame ?s1 s'" "set (reachable_vardocs ?s1) \<subseteq> set (reachable_vardocs s')"
      "set (contained_valdocs ?s1) \<subseteq> set (contained_valdocs s')"
      using find_contained_valdocs_frame find_contained_valdocs_records find_contained_valdocs_grows
      by blast+
    then show ?thesis using r1 by (auto simp: walk_frame_def)
  qed
qed

lemma walk_frame_trans: "walk_frame a b \<Longrightarrow> walk_frame b c \<Longrightarrow> walk_frame a c"
  by (simp add: walk_frame_def)

lemma find_contained_valdocs_closes:
  "find_contained_valdocs k v st = Done st' \<Longrightarrow> closed_except A st
     \<Longrightarrow> closed_except A st' \<and> v \<in> set (contained_valdocs st')"
proof (induction k arbitrary: v st st' A)
  case 0
  then show ?case by simp
next
  case (Suc k)
  show ?case
  proof (cases "v \<in> set (contained_valdocs st)")
    case True
    then show ?thesis using Suc.prems by simp
  next
    case False
    let ?st1 = "st\<lparr>contained_valdocs := set_add (contained_valdocs st) v\<rparr>"
    let ?xs = "case v of Some r \<Rightarrow> vardocs_reachable_from st r | None \<Rightarrow> []"
    let ?A = "insert v A"
    let ?I = "\<lambda>s. closed_except ?A s \<and> walk_frame st s \<and> v \<in> set (contained_valdocs s)"
    let ?E = "\<lambda>var s. var \<in> set (reachable_vardocs s)
                \<and> (followed var \<longrightarrow> target var \<in> set (contained_valdocs s))"
    from False Suc.prems(1)
    have run: "for_each (contain_variable (find_contained_valdocs k)) ?xs ?st1 = Done st'"
      by simp
    have c1: "set (contained_valdocs ?st1) = insert v (set (contained_valdocs st))"
      by (auto simp: set_add_def)
    have f1: "walk_frame st ?st1" by (simp add: walk_frame_def)
    have i1: "?I ?st1"
    proof -
      have "finished ?st1 c" if "c \<in> set (contained_valdocs st)" "c \<notin> A" for c
      proof (rule finished_grows)
        show "finished st c" using Suc.prems(2) that by (simp add: closed_except_def)
        show "bindings_of ?st1 c = bindings_of st c" by (rule bindings_of_frame[OF f1])
        show "set (reachable_vardocs st) \<subseteq> set (reachable_vardocs ?st1)" by simp
        show "set (contained_valdocs st) \<subseteq> set (contained_valdocs ?st1)" using c1 by blast
      qed
      then have "closed_except ?A ?st1" unfolding closed_except_def c1 by blast
      moreover have "v \<in> set (contained_valdocs ?st1)" unfolding c1 by simp
      ultimately show ?thesis using f1 by blast
    qed
    have res: "?I st' \<and> (\<forall>var \<in> set ?xs. ?E var st')"
    proof (rule for_each_establishes[OF run, where I = ?I and E = ?E])
      show "?I ?st1" by (rule i1)
    next
      fix var s s'
      assume var: "var \<in> set ?xs" and s: "?I s"
        and b: "contain_variable (find_contained_valdocs k) var s = Done s'"
      let ?s1 = "s\<lparr>reachable_vardocs := set_add (reachable_vardocs s) var\<rparr>"
      note fr = contain_variable_frame[OF b]
      have f: "walk_frame st s'" using s fr by (blast intro: walk_frame_trans)
      have vin: "v \<in> set (contained_valdocs s')" using s fr by blast
      have cl1: "closed_except ?A ?s1"
      proof -
        have "finished ?s1 c" if "c \<in> set (contained_valdocs s)" "c \<notin> ?A" for c
        proof (rule finished_grows)
          have "closed_except ?A s" using s by blast
          then show "finished s c" using that unfolding closed_except_def by blast
        next
          have "walk_frame s ?s1" by (simp add: walk_frame_def)
          then show "bindings_of ?s1 c = bindings_of s c" by (rule bindings_of_frame)
        next
          show "set (reachable_vardocs s) \<subseteq> set (reachable_vardocs ?s1)"
            by (auto simp: set_add_def)
        next
          show "set (contained_valdocs s) \<subseteq> set (contained_valdocs ?s1)" by simp
        qed
        moreover have "contained_valdocs ?s1 = contained_valdocs s" by simp
        ultimately show ?thesis unfolding closed_except_def by metis
      qed
      from contain_variable_cases[OF b]
      show "?I s' \<and> ?E var s'"
      proof
        assume a: "\<not> followed var \<and> s' = ?s1"
        then have "closed_except ?A s'" using cl1 by simp
        then show ?thesis using a f vin fr by blast
      next
        assume a: "followed var \<and> find_contained_valdocs k (target var) ?s1 = Done s'"
        have "closed_except ?A s' \<and> target var \<in> set (contained_valdocs s')"
          by (rule Suc.IH[OF conjunct2[OF a] cl1])
        then show ?thesis using f vin fr by blast
      qed
    next
      fix x y s s'
      assume "contain_variable (find_contained_valdocs k) x s = Done s'" "?E y s"
      then show "?E y s'" using contain_variable_frame[of k x s s'] by blast
    qed
    have fin: "finished st' v"
    proof -
      have "walk_frame st st'" using res by blast
      then have "bindings_of st' v = bindings_of st v" by (rule bindings_of_frame)
      then have "bindings_of st' v = ?xs" by (simp add: bindings_of_def)
      moreover have "\<forall>var \<in> set ?xs. ?E var st'" using res by blast
      ultimately show ?thesis unfolding finished_def by simp
    qed
    have "closed_except A st'"
      unfolding closed_except_def
    proof (intro ballI impI)
      fix c assume c: "c \<in> set (contained_valdocs st')" "c \<notin> A"
      show "finished st' c"
      proof (cases "c = v")
        case True then show ?thesis using fin by simp
      next
        case False
        have "closed_except ?A st'" using res by blast
        then show ?thesis using False c unfolding closed_except_def by blast
      qed
    qed
    moreover have "v \<in> set (contained_valdocs st')" using res by blast
    ultimately show ?thesis by blast
  qed
qed

lemma find_contained_valdocs_within:
  assumes "walk_frame st0 s" and "walk_reaches st0 v0 v"
    and "set (contained_valdocs s) \<subseteq> C" and "set (reachable_vardocs s) \<subseteq> V"
    and "{c. walk_reaches st0 v0 c} \<subseteq> C"
    and "{var. \<exists>c. walk_reaches st0 v0 c \<and> var \<in> set (bindings_of st0 c)} \<subseteq> V"
  shows "find_contained_valdocs k v s = Done s' \<Longrightarrow>
     set (contained_valdocs s') \<subseteq> C \<and> set (reachable_vardocs s') \<subseteq> V"
  using assms(1-4)
proof (induction k arbitrary: v s s')
  case 0
  then show ?case by simp
next
  case (Suc k)
  show ?case
  proof (cases "v \<in> set (contained_valdocs s)")
    case True
    then show ?thesis using Suc.prems by simp
  next
    case False
    let ?s1 = "s\<lparr>contained_valdocs := set_add (contained_valdocs s) v\<rparr>"
    let ?xs = "case v of Some r \<Rightarrow> vardocs_reachable_from s r | None \<Rightarrow> []"
    let ?P = "\<lambda>t. walk_frame st0 t \<and> set (contained_valdocs t) \<subseteq> C \<and> set (reachable_vardocs t) \<subseteq> V"
    from False Suc.prems(1)
    have run: "for_each (contain_variable (find_contained_valdocs k)) ?xs ?s1 = Done s'"
      by simp
    have xs: "?xs = bindings_of st0 v"
      using bindings_of_frame[OF Suc.prems(2), of v] by (simp add: bindings_of_def)
    have vC: "v \<in> C" using Suc.prems(3) assms(5) by blast
    have "?P s'"
    proof (rule for_each_invariant[OF run, where P = ?P])
      have "set (contained_valdocs ?s1) = insert v (set (contained_valdocs s))"
        by (auto simp: set_add_def)
      moreover have "walk_frame st0 ?s1" using Suc.prems(2) by (simp add: walk_frame_def)
      ultimately show "?P ?s1" using Suc.prems(4,5) vC by simp
    next
      fix var t t'
      assume var: "var \<in> set ?xs" and t: "?P t"
        and b: "contain_variable (find_contained_valdocs k) var t = Done t'"
      let ?t1 = "t\<lparr>reachable_vardocs := set_add (reachable_vardocs t) var\<rparr>"
      have "var \<in> set (bindings_of st0 v)" using var xs by simp
      then have varV: "var \<in> V" using Suc.prems(3) assms(6) by blast
      have f1: "walk_frame st0 ?t1" using t by (simp add: walk_frame_def)
      have c1: "set (contained_valdocs ?t1) \<subseteq> C" using t by simp
      have "set (reachable_vardocs ?t1) = insert var (set (reachable_vardocs t))"
        by (auto simp: set_add_def)
      then have r1: "set (reachable_vardocs ?t1) \<subseteq> V" using t varV by simp
      from contain_variable_cases[OF b] show "?P t'"
      proof
        assume "\<not> followed var \<and> t' = ?t1"
        then show ?thesis using f1 c1 r1 by simp
      next
        assume a: "followed var \<and> find_contained_valdocs k (target var) ?t1 = Done t'"
        have "var \<in> set (bindings_of st0 v)" using var xs by simp
        then have reach: "walk_reaches st0 v0 (target var)"
          using walk_reaches.step[OF Suc.prems(3)] a by simp
        have "set (contained_valdocs t') \<subseteq> C \<and> set (reachable_vardocs t') \<subseteq> V"
          by (rule Suc.IH[OF conjunct2[OF a] f1 reach c1 r1])
        moreover have "walk_frame st0 t'"
          using find_contained_valdocs_frame[OF conjunct2[OF a]] f1 by (rule walk_frame_trans[rotated])
        ultimately show ?thesis by simp
      qed
    qed
    then show ?thesis by simp
  qed
qed

lemma walk_closed_reaches:
  assumes "walk_closed s" and "v \<in> set (contained_valdocs s)" and "walk_reaches s v c"
  shows "c \<in> set (contained_valdocs s)"
  using assms(3)
proof (induction rule: walk_reaches.induct)
  case start
  then show ?case by (rule assms(2))
next
  case (step c var)
  then show ?case using assms(1) by (simp add: walk_closed_def finished_def)
qed

lemma walk_reaches_frame:
  assumes "walk_frame st s"
  shows "walk_reaches s v c = walk_reaches st v c"
proof
  assume "walk_reaches s v c"
  then show "walk_reaches st v c"
  proof (induction rule: walk_reaches.induct)
    case start
    then show ?case by (rule walk_reaches.start)
  next
    case (step c var)
    then show ?case using bindings_of_frame[OF assms, of c] by (auto intro: walk_reaches.step)
  qed
next
  assume "walk_reaches st v c"
  then show "walk_reaches s v c"
  proof (induction rule: walk_reaches.induct)
    case start
    then show ?case by (rule walk_reaches.start)
  next
    case (step c var)
    then show ?case using bindings_of_frame[OF assms, of c] by (auto intro: walk_reaches.step)
  qed
qed

text \<open>
  Claim C6, as amended.  A walk that starts at \<open>v\<close> in a state where every contained
  value is finished adds to \<open>contained_valdocs\<close> exactly what it reaches from \<open>v\<close>
  through followed variables, and to \<open>reachable_vardocs\<close> exactly the variables of
  the values it reaches, and it leaves every contained value finished.  A variable is
  followed when its value is not \<open>UNKNOWN\<close> and \<open>is_imported\<close> is not \<open>True\<close>
  (so also when \<open>is_imported\<close> is \<open>UNKNOWN\<close>); a variable that is not followed is
  recorded and its value is not entered through it.
\<close>

theorem containment_walk:
  assumes run: "find_contained_valdocs k v st = Done st'" and closed: "walk_closed st"
  shows "set (contained_valdocs st') = set (contained_valdocs st) \<union> {c. walk_reaches st v c}
     \<and> set (reachable_vardocs st')
         = set (reachable_vardocs st)
           \<union> {var. \<exists>c. walk_reaches st v c \<and> var \<in> set (bindings_of st c)}
     \<and> walk_closed st'"
proof -
  let ?C = "set (contained_valdocs st) \<union> {c. walk_reaches st v c}"
  let ?V = "set (reachable_vardocs st)
           \<union> {var. \<exists>c. walk_reaches st v c \<and> var \<in> set (bindings_of st c)}"
  have f: "walk_frame st st'" by (rule find_contained_valdocs_frame[OF run])
  have within: "set (contained_valdocs st') \<subseteq> ?C \<and> set (reachable_vardocs st') \<subseteq> ?V"
  proof (rule find_contained_valdocs_within[OF _ _ _ _ _ _ run])
    show "walk_frame st st" by (simp add: walk_frame_def)
    show "walk_reaches st v v" by (rule walk_reaches.start)
  qed auto
  have "closed_except {} st" using closed by (simp add: closed_except_def walk_closed_def)
  then have cl: "closed_except {} st' \<and> v \<in> set (contained_valdocs st')"
    by (rule find_contained_valdocs_closes[OF run])
  then have closed': "walk_closed st'" by (simp add: closed_except_def walk_closed_def)
  have reach: "c \<in> set (contained_valdocs st')" if "walk_reaches st v c" for c
  proof -
    have "walk_reaches st' v c" using that walk_reaches_frame[OF f] by simp
    then show ?thesis using walk_closed_reaches[OF closed'] cl by blast
  qed
  have vars: "var \<in> set (reachable_vardocs st')"
    if "walk_reaches st v c" "var \<in> set (bindings_of st c)" for c var
  proof -
    have "finished st' c" using reach[OF that(1)] closed' by (simp add: walk_closed_def)
    moreover have "var \<in> set (bindings_of st' c)" using that(2) bindings_of_frame[OF f] by simp
    ultimately show ?thesis by (simp add: finished_def)
  qed
  have "?C \<subseteq> set (contained_valdocs st')"
    using find_contained_valdocs_grows[OF run] reach by blast
  moreover have "?V \<subseteq> set (reachable_vardocs st')"
    using find_contained_valdocs_records[OF run] vars by blast
  ultimately show ?thesis using within closed' by blast
qed

theorem containment_walk_witness:
  "walk_closed (empty_index example_import_merge [0])
   \<and> is_Done (find_contained_valdocs 3 (Some 0) (empty_index example_import_merge [0]))
   \<and> walk_closed (the_Done (find_contained_valdocs 3 (Some 0) (empty_index example_import_merge [0])))
   \<and> contained_valdocs
        (the_Done (find_contained_valdocs 3 (Some 0) (empty_index example_import_merge [0])))
       = [Some 0, Some 2]
   \<and> map var_name (reachable_vardocs
        (the_Done (find_contained_valdocs 3 (Some 0) (empty_index example_import_merge [0]))))
       = [''X'', ''B'']"
proof -
  let ?st = "empty_index example_import_merge [0]"
  have c: "walk_closed ?st" by code_simp
  have d: "is_Done (find_contained_valdocs 3 (Some 0) ?st)" by code_simp
  have "walk_closed (the_Done (find_contained_valdocs 3 (Some 0) ?st))"
    using containment_walk[OF Done_the_Done[OF d] c] by blast
  moreover have "contained_valdocs (the_Done (find_contained_valdocs 3 (Some 0) ?st))
       = [Some 0, Some 2]" by code_simp
  moreover have "map var_name (reachable_vardocs
        (the_Done (find_contained_valdocs 3 (Some 0) ?st))) = [''X'', ''B'']" by code_simp
  ultimately show ?thesis using c d by blast
qed

theorem containment_walk_None_counterexample:
  "var_value (hd (vardocs_of (example_none_target ! 0))) = PyNone
   \<and> is_Done (find_contained_valdocs 3 (Some 0) (empty_index example_none_target [0]))
   \<and> contained_valdocs
        (the_Done (find_contained_valdocs 3 (Some 0) (empty_index example_none_target [0])))
       = [Some 0, None]"
  by code_simp

lemma index_roots_name_kept:
  assumes wf: "wf_heap h" and roots: "set root \<subseteq> {..<length h}"
    and run: "index_roots k (empty_index h root) = Done st"
    and v: "v < length h" and name: "canonical_name (h ! v) \<noteq> UNKNOWN"
  shows "canonical_name (obj st v) = canonical_name (h ! v)
       \<and> imported_from (obj st v) = imported_from (h ! v)"
proof -
  have "roots_inv h (empty_index h root)" by (rule roots_inv_empty_index)
  then have inv: "roots_inv h st"
    using index_roots_roots_inv[OF wf run] roots by (simp add: root_list_empty_index)
  then have sh: "shape_inv h st" by (simp add: roots_inv_def naming_inv_def)
  have o: "obj st v = heap st ! v" by (rule shape_inv_obj[OF sh v])
  have "canonical_name (heap st ! v) = canonical_name (h ! v)"
    using inv v name by (simp add: roots_inv_def kept_inv_def)
  moreover have "imported_from (obj st v) = imported_from (h ! v)"
    by (rule same_shape_imported_from[OF shape_inv_same[OF sh v]])
  ultimately show ?thesis using o by simp
qed

lemma DocIndex_name_kept:
  assumes wf: "wf_heap h" and roots: "set root \<subseteq> {..<length h}"
    and run: "DocIndex k h root = Done st"
    and v: "v < length h" and name: "canonical_name (h ! v) \<noteq> UNKNOWN"
    and no: "\<not> is_name (imported_from (h ! v))"
  shows "canonical_name (obj st v) = canonical_name (h ! v)"
proof -
  from run obtain st1 st2 where
    1: "index_roots k (empty_index h root) = Done st1" and
    2: "resolve_imports k st1 = Done st2" and
    3: "for_each find_canonical_container (reachable_valdocs st2) st2 = Done st"
    by (auto simp: DocIndex_def split: if_splits outcome.splits)
  note f = index_roots_name_kept[OF wf roots 1 v name]
  have "\<not> is_name (imported_from (obj st1 v))" using f no by simp
  then have "untouched st1 v st2" using 2 by (rule resolve_imports_untouched)
  then have "obj st2 v = obj st1 v" by (simp add: untouched_def obj_def)
  moreover have "canonical_name (obj st v) = canonical_name (obj st2 v)"
    by (rule names_as_obj[OF containers_names_as[OF 3]])
  ultimately show ?thesis using f by simp
qed

lemma DocIndex_roots_named:
  assumes "DocIndex k h root = Done st" and "r \<in> set root"
  shows "canonical_name (h ! r) \<noteq> UNKNOWN"
proof -
  have "\<not> (\<exists>apidoc \<in> set root. has_no_name (h ! apidoc))"
    using assms(1) by (auto simp: DocIndex_def split: if_splits)
  then show ?thesis using assms(2) by (auto simp: has_no_name_def)
qed




text \<open>
  Claim C10, as amended.  In an index that the constructor returned, the root list is the
  root set sorted by the length of the canonical names that the roots came with (a
  stable sort, so equal lengths keep their order), and \<open>_get\<close> goes through it in this
  order.  When no root declares an import source the roots still show these names, so
  the order is ascending in the length of the names that \<open>_get\<close> tests.  \<open>_get\<close>
  answers \<open>(None, None)\<close> exactly when it passes over every root; and when it passes
  over the roots before \<open>r\<close> (among them roots that dominate the name but below which
  the walk finds nothing) and the walk below \<open>r\<close> finds something, that is the answer.
\<close>

theorem get_falls_through:
  assumes "DocIndex k h root = Done st"
  shows "root_list st = sort_key (\<lambda>d. name_length (h ! d)) root
    \<and> sorted (map (\<lambda>d. name_length (h ! d)) (root_list st))
    \<and> (wf_heap h \<longrightarrow> set root \<subseteq> {..<length h}
         \<longrightarrow> (\<forall>r \<in> set root. \<not> is_name (imported_from (h ! r)))
         \<longrightarrow> sorted (map (\<lambda>d. name_length (obj st d)) (root_list st)))
    \<and> (get st name = Inr (None, None) \<longleftrightarrow> (\<forall>r \<in> set (root_list st). passed_over st name r))
    \<and> (\<forall>pre r post rn found.
          root_list st = pre @ r # post
          \<longrightarrow> (\<forall>r' \<in> set pre. passed_over st name r')
          \<longrightarrow> canonical_name (obj st r) = Known rn \<longrightarrow> dominates rn name
          \<longrightarrow> get_from st None (Some r) (drop (length rn) name) = Inr found
          \<longrightarrow> found \<noteq> (None, None)
          \<longrightarrow> get st name = Inr found)"
proof -
  have rl: "root_list st = sort_key (\<lambda>d. name_length (h ! d)) root"
    by (rule DocIndex_root_list[OF assms])
  have "sorted (map (\<lambda>d. name_length (h ! d)) (sort_key (\<lambda>d. name_length (h ! d)) root))"
    by (rule sorted_sort_key)
  then have so: "sorted (map (\<lambda>d. name_length (h ! d)) (root_list st))"
    by (simp only: rl)
  have now: "sorted (map (\<lambda>d. name_length (obj st d)) (root_list st))"
    if wf: "wf_heap h" and roots: "set root \<subseteq> {..<length h}"
      and no: "\<forall>r \<in> set root. \<not> is_name (imported_from (h ! r))"
  proof -
    have "name_length (obj st d) = name_length (h ! d)" if d: "d \<in> set (root_list st)" for d
    proof -
      have dr: "d \<in> set root" using d rl by simp
      then have "d < length h" using roots by auto
      then have "canonical_name (obj st d) = canonical_name (h ! d)"
        using DocIndex_name_kept[OF wf roots assms _ DocIndex_roots_named[OF assms dr]] no dr
        by blast
      then show ?thesis by (simp add: name_length_def)
    qed
    then have m: "map (\<lambda>d. name_length (obj st d)) (root_list st)
        = map (\<lambda>d. name_length (h ! d)) (root_list st)"
      by (rule map_cong[OF refl])
    show ?thesis unfolding m by (rule so)
  qed
  have nf: "get st name = Inr (None, None) \<longleftrightarrow> (\<forall>r \<in> set (root_list st). passed_over st name r)"
    using get_in_roots_not_found[of st "root_list st" name] by (simp add: get_def)
  have first: "get st name = Inr found"
    if "root_list st = pre @ r # post" "\<forall>r' \<in> set pre. passed_over st name r'"
      "canonical_name (obj st r) = Known rn" "dominates rn name"
      "get_from st None (Some r) (drop (length rn) name) = Inr found" "found \<noteq> (None, None)"
    for pre r post rn found
    using get_in_roots_first[OF that(2,3,4,5,6), of post] that(1) by (simp add: get_def)
  show ?thesis using rl so now nf first by blast
qed

theorem get_falls_through_witness:
  "get (the_Done (DocIndex 4 example_two_roots [1, 0])) [''a'', ''b'', ''c'']
     = Inr (Some (new_vardoc ''c'' 2), Some 2)
   \<and> root_list (the_Done (DocIndex 4 example_two_roots [1, 0])) = [0, 1]
   \<and> get_from (the_Done (DocIndex 4 example_two_roots [1, 0])) None (Some 0) [''b'', ''c'']
       = Inr (None, None)
   \<and> get (the_Done (DocIndex 4 example_two_roots [1, 0])) [''a'', ''x''] = Inr (None, None)
   \<and> sorted (map (\<lambda>d. name_length (obj (the_Done (DocIndex 4 example_two_roots [1, 0])) d))
        (root_list (the_Done (DocIndex 4 example_two_roots [1, 0]))))"
proof -
  let ?st = "the_Done (DocIndex 4 example_two_roots [1, 0])"
  have "is_Done (DocIndex 4 example_two_roots [1, 0])" by code_simp
  then have d: "DocIndex 4 example_two_roots [1, 0] = Done ?st" by (rule Done_the_Done)
  have rl: "root_list ?st = [0, 1]" by code_simp
  have rl1: "root_list ?st = [0] @ 1 # []" by code_simp
  have n1: "canonical_name (obj ?st 1) = Known [''a'', ''b'']" by code_simp
  have d1: "dominates [''a'', ''b''] [''a'', ''b'', ''c'']" by code_simp
  have w0: "get_from ?st None (Some 0) [''b'', ''c''] = Inr (None, None)"
    by code_simp
  have w1: "get_from ?st None (Some 1) (drop (length [''a'', ''b'']) [''a'', ''b'', ''c''])
              = Inr (Some (new_vardoc ''c'' 2), Some 2)"
    by code_simp
  have ne: "(Some (new_vardoc ''c'' 2), Some (2::nat)) \<noteq> (None, None)" by simp
  have pre: "\<forall>r' \<in> set [0]. passed_over ?st [''a'', ''b'', ''c''] r'" by code_simp
  have all: "\<forall>r \<in> set (root_list ?st). passed_over ?st [''a'', ''x''] r" by code_simp
  have wf: "wf_heap example_two_roots" by code_simp
  have roots: "set [1, 0] \<subseteq> {..<length example_two_roots}" by code_simp
  have no: "\<forall>r \<in> set [1, 0]. \<not> is_name (imported_from (example_two_roots ! r))" by code_simp
  note t = get_falls_through[OF d]
  have a: "get ?st [''a'', ''b'', ''c''] = Inr (Some (new_vardoc ''c'' 2), Some 2)"
    by (rule t[of "[''a'', ''b'', ''c'']", THEN conjunct2, THEN conjunct2, THEN conjunct2,
          THEN conjunct2, rule_format, OF rl1 _ n1 d1 w1 ne]) (use pre in blast)
  have b: "get ?st [''a'', ''x''] = Inr (None, None)"
    using all by (rule t[of "[''a'', ''x'']", THEN conjunct2, THEN conjunct2, THEN conjunct2,
          THEN conjunct1, THEN iffD2])
  have c: "sorted (map (\<lambda>d. name_length (obj ?st d)) (root_list ?st))"
    by (rule t[of "[]", THEN conjunct2, THEN conjunct2, THEN conjunct1, THEN mp, THEN mp,
          THEN mp, OF wf roots no])
  show ?thesis using a b c rl w0 by blast
qed

theorem get_longer_root_first_counterexample:
  "is_Done (DocIndex 4 example_merged_root [0, 1])
   \<and> root_list (the_Done (DocIndex 4 example_merged_root [0, 1])) = [0, 1]
   \<and> map (\<lambda>d. canonical_name (obj (the_Done (DocIndex 4 example_merged_root [0, 1])) d))
        (root_list (the_Done (DocIndex 4 example_merged_root [0, 1])))
       = [Known [''m'', ''A''], Known [''m'']]
   \<and> \<not> sorted (map (\<lambda>d. name_length (obj (the_Done (DocIndex 4 example_merged_root [0, 1])) d))
        (root_list (the_Done (DocIndex 4 example_merged_root [0, 1]))))
   \<and> dominates [''m'', ''A''] [''m'', ''A''] \<and> dominates [''m''] [''m'', ''A'']
   \<and> get_from (the_Done (DocIndex 4 example_merged_root [0, 1])) None (Some 1) [''A'']
       = Inr (Some (new_vardoc ''A'' 2), Some 2)
   \<and> get (the_Done (DocIndex 4 example_merged_root [0, 1])) [''m'', ''A''] = Inr (None, Some 0)"
  by code_simp


















end
